theory Spec2Isabelle
  imports Main
begin

section \<open>Data model of the file indexer (db/file\_indexer.cc)\<close>

text \<open>
  The failures the C++ code can run into: a debug assertion that fires, an access
  past the end of a vector or of the per-level file array, and a \<open>resize\<close> to a
  negative (hence huge unsigned) size.
\<close>

datatype error = AssertionFailed | OutOfRange | LengthError

text \<open>
  A file's metadata, reduced to the two user keys the indexer reads
  (\<open>smallest.user_key()\<close> and \<open>largest.user_key()\<close>).
\<close>

record 'k FileMetaData =
  smallest :: 'k
  largest :: 'k

text \<open>The hint record of one file: four \<open>int32_t\<close> offsets into the next level.\<close>

record IndexUnit =
  smallest_lb :: int
  largest_lb :: int
  smallest_rb :: int
  largest_rb :: int

text \<open>
  The object state: \<open>num_levels_\<close> (a \<open>uint32_t\<close>), the injected comparator
  \<open>ucmp_\<close>, the per-level hint vectors \<open>next_level_index_\<close> and the per-level
  bound cache \<open>level_rb_\<close>.
\<close>

record 'k FileIndexer =
  num_levels :: nat
  ucmp :: "'k \<Rightarrow> 'k \<Rightarrow> int"
  next_level_index :: "IndexUnit list list"
  level_rb :: "int list"

subsection \<open>Machine arithmetic\<close>

text \<open>\<open>a - b\<close> on \<open>uint32_t\<close>: the difference modulo \<open>2^32\<close>.\<close>

definition uint32_sub :: "nat \<Rightarrow> nat \<Rightarrow> nat" where
  "uint32_sub a b = nat ((int a - int b) mod 2 ^ 32)"

text \<open>Conversion of an integer value to \<open>int32_t\<close>: the low 32 bits, read signed.\<close>

definition int32_cast :: "int \<Rightarrow> int" where
  "int32_cast x = (x + 2 ^ 31) mod 2 ^ 32 - 2 ^ 31"

text \<open>\<open>std::vector::resize(n)\<close>: truncate, or pad with value-initialised elements \<open>d\<close>.\<close>

definition vector_resize :: "'a \<Rightarrow> nat \<Rightarrow> 'a list \<Rightarrow> 'a list" where
  "vector_resize d n xs = take n xs @ replicate (n - length xs) d"

section \<open>Operations\<close>

subsection \<open>Constructor and accessors\<close>

definition FileIndexer :: "nat \<Rightarrow> ('k \<Rightarrow> 'k \<Rightarrow> int) \<Rightarrow> 'k FileIndexer" where
  "FileIndexer n c =
     \<lparr>num_levels = n, ucmp = c, next_level_index = replicate n [], level_rb = replicate n (- 1)\<rparr>"

definition NumLevelIndex :: "'k FileIndexer \<Rightarrow> nat" where
  "NumLevelIndex s = length (next_level_index s) mod 2 ^ 32"

definition LevelIndexSize :: "'k FileIndexer \<Rightarrow> nat \<Rightarrow> error + nat" where
  "LevelIndexSize s level =
     (if level < length (next_level_index s)
      then Inr (length (next_level_index s ! level) mod 2 ^ 32)
      else Inl OutOfRange)"

subsection \<open>GetNextLevelIndex\<close>

definition GetNextLevelIndex ::
  "'k FileIndexer \<Rightarrow> nat \<Rightarrow> nat \<Rightarrow> int \<Rightarrow> int \<Rightarrow> error + (int \<times> int)" where
  "GetNextLevelIndex s level file_index cmp_smallest cmp_largest =
     (if \<not> level > 0 then Inl AssertionFailed
      else if level = uint32_sub (num_levels s) 1 then Inr (0, - 1)
      else if \<not> level < uint32_sub (num_levels s) 1 then Inl AssertionFailed
      else if length (level_rb s) \<le> level + 1 \<or> length (next_level_index s) \<le> level
        then Inl OutOfRange
      else if \<not> int32_cast (int file_index) \<le> level_rb s ! level then Inl AssertionFailed
      else if length (next_level_index s ! level) \<le> file_index then Inl OutOfRange
      else
        let index = next_level_index s ! level ! file_index in
        (case
           (if cmp_smallest < 0 then
              Some (if level > 0 \<and> file_index > 0
                    then largest_lb (next_level_index s ! level ! (file_index - 1)) else 0,
                    smallest_rb index)
            else if cmp_smallest = 0 then Some (smallest_lb index, smallest_rb index)
            else if cmp_smallest > 0 \<and> cmp_largest < 0 then
              Some (smallest_lb index, largest_rb index)
            else if cmp_largest = 0 then Some (largest_lb index, largest_rb index)
            else if cmp_largest > 0 then Some (largest_lb index, level_rb s ! (level + 1))
            else None)
         of
           None \<Rightarrow> Inl AssertionFailed
         | Some (left_bound, right_bound) \<Rightarrow>
             if left_bound \<ge> 0 \<and> left_bound \<le> right_bound + 1
                \<and> right_bound \<le> level_rb s ! (level + 1)
             then Inr (left_bound, right_bound)
             else Inl AssertionFailed))"

subsection \<open>ClearIndex\<close>

function ClearIndex_loop :: "nat \<Rightarrow> 'k FileIndexer \<Rightarrow> error + 'k FileIndexer" where
  "ClearIndex_loop level s =
     (if level < num_levels s then
        if length (next_level_index s) \<le> level then Inl OutOfRange
        else ClearIndex_loop (level + 1)
               (s\<lparr>next_level_index := (next_level_index s)[level := []]\<rparr>)
      else Inr s)"
  by pat_completeness auto
termination
  by (relation "measure (\<lambda>(level, s). num_levels s - level)") auto

declare ClearIndex_loop.simps [simp del]

definition ClearIndex :: "'k FileIndexer \<Rightarrow> error + 'k FileIndexer" where
  "ClearIndex s = ClearIndex_loop 1 s"

subsection \<open>CalculateLB and CalculateRB\<close>

text \<open>The two-cursor loop of \<open>CalculateLB\<close>; it returns the upper cursor and the vector.\<close>

function CalculateLB_merge ::
  "'k FileMetaData list \<Rightarrow> 'k FileMetaData list
   \<Rightarrow> ('k FileMetaData \<Rightarrow> 'k FileMetaData \<Rightarrow> int) \<Rightarrow> (IndexUnit \<Rightarrow> int \<Rightarrow> IndexUnit)
   \<Rightarrow> int \<Rightarrow> int \<Rightarrow> int \<Rightarrow> int \<Rightarrow> IndexUnit list \<Rightarrow> int \<times> IndexUnit list" where
  "CalculateLB_merge upper_files lower_files cmp_op set_index upper_size lower_size
       upper_idx lower_idx index =
     (if upper_idx < upper_size \<and> lower_idx < lower_size then
        let cmp = cmp_op (upper_files ! nat upper_idx) (lower_files ! nat lower_idx) in
        if cmp = 0 then
          CalculateLB_merge upper_files lower_files cmp_op set_index upper_size lower_size
            (upper_idx + 1) (lower_idx + 1)
            (index[nat upper_idx := set_index (index ! nat upper_idx) lower_idx])
        else if cmp > 0 then
          CalculateLB_merge upper_files lower_files cmp_op set_index upper_size lower_size
            upper_idx (lower_idx + 1) index
        else
          CalculateLB_merge upper_files lower_files cmp_op set_index upper_size lower_size
            (upper_idx + 1) lower_idx
            (index[nat upper_idx := set_index (index ! nat upper_idx) lower_idx])
      else (upper_idx, index))"
  by pat_completeness auto
termination
  by (relation "measure (\<lambda>(uf, lf, c, st, us, ls, ui, li, ix). nat (us - ui) + nat (ls - li))")
     auto

declare CalculateLB_merge.simps [simp del]

text \<open>The second loop of \<open>CalculateLB\<close>: the lower files are exhausted.\<close>

function CalculateLB_rest ::
  "(IndexUnit \<Rightarrow> int \<Rightarrow> IndexUnit) \<Rightarrow> int \<Rightarrow> int \<Rightarrow> int \<Rightarrow> IndexUnit list \<Rightarrow> IndexUnit list" where
  "CalculateLB_rest set_index upper_size lower_size upper_idx index =
     (if upper_idx < upper_size then
        CalculateLB_rest set_index upper_size lower_size (upper_idx + 1)
          (index[nat upper_idx := set_index (index ! nat upper_idx) lower_size])
      else index)"
  by pat_completeness auto
termination
  by (relation "measure (\<lambda>(st, us, ls, ui, ix). nat (us - ui))") auto

declare CalculateLB_rest.simps [simp del]

definition CalculateLB ::
  "'k FileMetaData list \<Rightarrow> 'k FileMetaData list \<Rightarrow> IndexUnit list
   \<Rightarrow> ('k FileMetaData \<Rightarrow> 'k FileMetaData \<Rightarrow> int) \<Rightarrow> (IndexUnit \<Rightarrow> int \<Rightarrow> IndexUnit)
   \<Rightarrow> IndexUnit list" where
  "CalculateLB upper_files lower_files index cmp_op set_index =
     (let upper_size = int32_cast (int (length upper_files));
          lower_size = int32_cast (int (length lower_files));
          (upper_idx, index1) =
             CalculateLB_merge upper_files lower_files cmp_op set_index upper_size lower_size
               0 0 index
      in CalculateLB_rest set_index upper_size lower_size upper_idx index1)"

function CalculateRB_merge ::
  "'k FileMetaData list \<Rightarrow> 'k FileMetaData list
   \<Rightarrow> ('k FileMetaData \<Rightarrow> 'k FileMetaData \<Rightarrow> int) \<Rightarrow> (IndexUnit \<Rightarrow> int \<Rightarrow> IndexUnit)
   \<Rightarrow> int \<Rightarrow> int \<Rightarrow> IndexUnit list \<Rightarrow> int \<times> IndexUnit list" where
  "CalculateRB_merge upper_files lower_files cmp_op set_index upper_idx lower_idx index =
     (if upper_idx \<ge> 0 \<and> lower_idx \<ge> 0 then
        let cmp = cmp_op (upper_files ! nat upper_idx) (lower_files ! nat lower_idx) in
        if cmp = 0 then
          CalculateRB_merge upper_files lower_files cmp_op set_index
            (upper_idx - 1) (lower_idx - 1)
            (index[nat upper_idx := set_index (index ! nat upper_idx) lower_idx])
        else if cmp < 0 then
          CalculateRB_merge upper_files lower_files cmp_op set_index
            upper_idx (lower_idx - 1) index
        else
          CalculateRB_merge upper_files lower_files cmp_op set_index
            (upper_idx - 1) lower_idx
            (index[nat upper_idx := set_index (index ! nat upper_idx) lower_idx])
      else (upper_idx, index))"
  by pat_completeness auto
termination
  by (relation "measure (\<lambda>(uf, lf, c, st, ui, li, ix). nat (ui + 1) + nat (li + 1))") auto

declare CalculateRB_merge.simps [simp del]

function CalculateRB_rest ::
  "(IndexUnit \<Rightarrow> int \<Rightarrow> IndexUnit) \<Rightarrow> int \<Rightarrow> IndexUnit list \<Rightarrow> IndexUnit list" where
  "CalculateRB_rest set_index upper_idx index =
     (if upper_idx \<ge> 0 then
        CalculateRB_rest set_index (upper_idx - 1)
          (index[nat upper_idx := set_index (index ! nat upper_idx) (- 1)])
      else index)"
  by pat_completeness auto
termination
  by (relation "measure (\<lambda>(st, ui, ix). nat (ui + 1))") auto

declare CalculateRB_rest.simps [simp del]

definition CalculateRB ::
  "'k FileMetaData list \<Rightarrow> 'k FileMetaData list \<Rightarrow> IndexUnit list
   \<Rightarrow> ('k FileMetaData \<Rightarrow> 'k FileMetaData \<Rightarrow> int) \<Rightarrow> (IndexUnit \<Rightarrow> int \<Rightarrow> IndexUnit)
   \<Rightarrow> IndexUnit list" where
  "CalculateRB upper_files lower_files index cmp_op set_index =
     (let upper_size = int32_cast (int (length upper_files));
          lower_size = int32_cast (int (length lower_files));
          (upper_idx, index1) =
             CalculateRB_merge upper_files lower_files cmp_op set_index
               (upper_size - 1) (lower_size - 1) index
      in CalculateRB_rest set_index upper_idx index1)"

subsection \<open>UpdateIndex\<close>

text \<open>
  The body of the loop over the levels \<open>1 .. num_levels_ - 2\<close>, for a level whose
  upper file list is not empty: resize the hint vector and run the four passes.
  The value \<open>d\<close> is the value-initialised \<open>IndexUnit\<close> that \<open>resize\<close> pads with; its
  declaration is in db/file\_indexer.h, so it is a parameter here.
\<close>

definition UpdateIndex_level ::
  "IndexUnit \<Rightarrow> ('k \<Rightarrow> 'k \<Rightarrow> int) \<Rightarrow> 'k FileMetaData list \<Rightarrow> 'k FileMetaData list
   \<Rightarrow> nat \<Rightarrow> IndexUnit list \<Rightarrow> IndexUnit list" where
  "UpdateIndex_level d c upper_files lower_files upper_size index0 =
     (let index = vector_resize d upper_size index0;
          index = CalculateLB upper_files lower_files index
                    (\<lambda>a b. c (smallest a) (largest b))
                    (\<lambda>index f_idx. index\<lparr>smallest_lb := f_idx\<rparr>);
          index = CalculateLB upper_files lower_files index
                    (\<lambda>a b. c (largest a) (largest b))
                    (\<lambda>index f_idx. index\<lparr>largest_lb := f_idx\<rparr>);
          index = CalculateRB upper_files lower_files index
                    (\<lambda>a b. c (smallest a) (smallest b))
                    (\<lambda>index f_idx. index\<lparr>smallest_rb := f_idx\<rparr>);
          index = CalculateRB upper_files lower_files index
                    (\<lambda>a b. c (largest a) (smallest b))
                    (\<lambda>index f_idx. index\<lparr>largest_rb := f_idx\<rparr>)
      in index)"

function UpdateIndex_loop ::
  "IndexUnit \<Rightarrow> 'k FileMetaData list list \<Rightarrow> nat \<Rightarrow> 'k FileIndexer
   \<Rightarrow> error + 'k FileIndexer" where
  "UpdateIndex_loop d files level s =
     (if level < uint32_sub (num_levels s) 1 then
        if length files \<le> level + 1 \<or> length (level_rb s) \<le> level
           \<or> length (next_level_index s) \<le> level
        then Inl OutOfRange
        else
          let upper_files = files ! level;
              upper_size = int32_cast (int (length upper_files));
              lower_files = files ! (level + 1);
              s1 = s\<lparr>level_rb := (level_rb s)[level := int32_cast (int (length upper_files) - 1)]\<rparr>
          in if upper_size = 0 then UpdateIndex_loop d files (level + 1) s1
             else if upper_size < 0 then Inl LengthError
             else UpdateIndex_loop d files (level + 1)
                    (s1\<lparr>next_level_index := (next_level_index s1)
                          [level := UpdateIndex_level d (ucmp s1) upper_files lower_files
                                      (nat upper_size) (next_level_index s1 ! level)]\<rparr>)
      else Inr s)"
  by pat_completeness auto
termination
  by (relation "measure (\<lambda>(d, files, level, s). uint32_sub (num_levels s) 1 - level)") auto

declare UpdateIndex_loop.simps [simp del]

definition UpdateIndex ::
  "IndexUnit \<Rightarrow> 'k FileMetaData list list option \<Rightarrow> 'k FileIndexer
   \<Rightarrow> error + 'k FileIndexer" where
  "UpdateIndex d files s =
     (case files of
        None \<Rightarrow> Inr s
      | Some fs \<Rightarrow>
          (case UpdateIndex_loop d fs 1 s of
             Inl e \<Rightarrow> Inl e
           | Inr s1 \<Rightarrow>
               let last_level = uint32_sub (num_levels s1) 1 in
               if length fs \<le> last_level \<or> length (level_rb s1) \<le> last_level
               then Inl OutOfRange
               else Inr (s1\<lparr>level_rb := (level_rb s1)
                              [last_level := int32_cast (int (length (fs ! last_level)) - 1)]\<rparr>)))"

section \<open>Specification vocabulary\<close>

text \<open>
  The smallest index \<open>j < n\<close> with \<open>P j\<close>, or \<open>n\<close> when there is none; and the
  largest index \<open>j < n\<close> with \<open>P j\<close>, or \<open>-1\<close> when there is none.
\<close>

definition first_index :: "(nat \<Rightarrow> bool) \<Rightarrow> nat \<Rightarrow> int" where
  "first_index P n = (case filter P [0..<n] of [] \<Rightarrow> int n | j # _ \<Rightarrow> int j)"

definition last_index :: "(nat \<Rightarrow> bool) \<Rightarrow> nat \<Rightarrow> int" where
  "last_index P n = (case rev (filter P [0..<n]) of [] \<Rightarrow> - 1 | j # _ \<Rightarrow> int j)"

text \<open>
  The injected comparator is a three-way comparison for the order of the keys:
  negative, zero or positive as the first key is below, equal to or above the second.
\<close>

definition comparator_ok :: "('k::linorder \<Rightarrow> 'k \<Rightarrow> int) \<Rightarrow> bool" where
  "comparator_ok c \<longleftrightarrow> (\<forall>a b. (c a b < 0 \<longleftrightarrow> a < b) \<and> (c a b = 0 \<longleftrightarrow> a = b))"

text \<open>
  A level's file list is sorted ascending and non-overlapping: every file has
  \<open>smallest \<le> largest\<close>, and every file ends strictly before each later file starts.
\<close>

definition level_sorted :: "('k::linorder) FileMetaData list \<Rightarrow> bool" where
  "level_sorted fs \<longleftrightarrow>
     (\<forall>f \<in> set fs. smallest f \<le> largest f) \<and> sorted_wrt (\<lambda>a b. largest a < smallest b) fs"

text \<open>The levels \<open>1, 2, ...\<close> of a per-level family are sorted and non-overlapping.\<close>

definition files_sorted :: "('k::linorder) FileMetaData list list \<Rightarrow> bool" where
  "files_sorted files \<longleftrightarrow> list_all level_sorted (drop 1 files)"

text \<open>
  The reference values of the four hint fields of an upper file \<open>f\<close> against the list of
  lower files.
\<close>

definition hint_of :: "('k::linorder) FileMetaData \<Rightarrow> 'k FileMetaData list \<Rightarrow> IndexUnit" where
  "hint_of f lower_files =
     \<lparr>smallest_lb = first_index (\<lambda>j. smallest f \<le> largest (lower_files ! j)) (length lower_files),
      largest_lb = first_index (\<lambda>j. largest f \<le> largest (lower_files ! j)) (length lower_files),
      smallest_rb = last_index (\<lambda>j. smallest (lower_files ! j) \<le> smallest f) (length lower_files),
      largest_rb = last_index (\<lambda>j. smallest (lower_files ! j) \<le> largest f) (length lower_files)\<rparr>"

text \<open>
  The class invariant the constructor establishes and no operation breaks: both vectors
  have \<open>num_levels_\<close> entries, and \<open>num_levels_\<close> fits its \<open>uint32_t\<close>.
\<close>

definition valid_indexer :: "'k FileIndexer \<Rightarrow> bool" where
  "valid_indexer s \<longleftrightarrow>
     length (next_level_index s) = num_levels s \<and> length (level_rb s) = num_levels s
     \<and> num_levels s < 2 ^ 32"

text \<open>
  The argument of \<open>UpdateIndex\<close> is an array of \<open>num_levels_\<close> file lists, each with
  fewer than \<open>2^31\<close> files, so that every size and index fits the \<open>int32_t\<close> the code
  stores it in.
\<close>

definition files_ok :: "'k FileIndexer \<Rightarrow> 'k FileMetaData list list \<Rightarrow> bool" where
  "files_ok s files \<longleftrightarrow>
     length files = num_levels s \<and> list_all (\<lambda>fs. length fs < 2 ^ 31) files"

subsection \<open>Concrete inputs\<close>

text \<open>A comparator on integer keys, and files written as key ranges.\<close>

definition int_Compare :: "int \<Rightarrow> int \<Rightarrow> int" where
  "int_Compare a b = (if a < b then - 1 else if a = b then 0 else 1)"

definition File :: "int \<Rightarrow> int \<Rightarrow> int FileMetaData" where
  "File a b = \<lparr>smallest = a, largest = b\<rparr>"

definition unit0 :: IndexUnit where
  "unit0 = \<lparr>smallest_lb = 0, largest_lb = 0, smallest_rb = - 1, largest_rb = - 1\<rparr>"

text \<open>Three levels: level 1 holds [10,20] and [30,40], level 2 holds [5,15], [18,25], [35,45].\<close>

definition scenario_files :: "int FileMetaData list list" where
  "scenario_files = [[], [File 10 20, File 30 40], [File 5 15, File 18 25, File 35 45]]"

definition scenario_built :: "int FileIndexer" where
  "scenario_built =
     \<lparr>num_levels = 3, ucmp = int_Compare,
      next_level_index =
        [[],
         [\<lparr>smallest_lb = 0, largest_lb = 1, smallest_rb = 0, largest_rb = 1\<rparr>,
          \<lparr>smallest_lb = 2, largest_lb = 2, smallest_rb = 1, largest_rb = 2\<rparr>],
         []],
      level_rb = [- 1, 1, 2]\<rparr>"

text \<open>
  Three levels where the only level-1 file [10,20] lies above the only level-2 file [1,5],
  and the state \<open>UpdateIndex\<close> builds from them.
\<close>

definition gap_files :: "int FileMetaData list list" where
  "gap_files = [[], [File 10 20], [File 1 5]]"

definition gap_built :: "int FileIndexer" where
  "gap_built =
     \<lparr>num_levels = 3, ucmp = int_Compare,
      next_level_index =
        [[], [\<lparr>smallest_lb = 1, largest_lb = 1, smallest_rb = 0, largest_rb = 0\<rparr>], []],
      level_rb = [- 1, 0, 0]\<rparr>"

text \<open>
  Three levels where level 2 has a file, [1,5], below both level-1 files, and the state
  \<open>UpdateIndex\<close> builds from them.
\<close>

definition skip_files :: "int FileMetaData list list" where
  "skip_files = [[], [File 10 20, File 30 40], [File 1 5, File 25 27]]"

definition skip_built :: "int FileIndexer" where
  "skip_built =
     \<lparr>num_levels = 3, ucmp = int_Compare,
      next_level_index =
        [[],
         [\<lparr>smallest_lb = 1, largest_lb = 1, smallest_rb = 0, largest_rb = 0\<rparr>,
          \<lparr>smallest_lb = 2, largest_lb = 2, smallest_rb = 1, largest_rb = 1\<rparr>],
         []],
      level_rb = [- 1, 1, 1]\<rparr>"

text \<open>A second set of file lists for the three levels, with level 1 empty.\<close>

definition emptied_files :: "int FileMetaData list list" where
  "emptied_files = [[], [], [File 5 15]]"

section \<open>Auxiliary lemmas\<close>

lemma int32_cast_id: "- (2 ^ 31) \<le> x \<Longrightarrow> x < 2 ^ 31 \<Longrightarrow> int32_cast x = x"
  unfolding int32_cast_def by (simp add: mod_pos_pos_trivial)

lemma uint32_sub_one: "1 \<le> n \<Longrightarrow> n < 2 ^ 32 \<Longrightarrow> uint32_sub n 1 = n - 1"
  unfolding uint32_sub_def by (simp add: mod_pos_pos_trivial nat_diff_distrib')

lemma int32_cast_length: "length xs < 2 ^ 31 \<Longrightarrow> int32_cast (int (length xs)) = int (length xs)"
  by (rule int32_cast_id) auto

lemma int32_cast_length_pred:
  "length xs < 2 ^ 31 \<Longrightarrow> int32_cast (int (length xs) - 1) = int (length xs) - 1"
  by (rule int32_cast_id) auto

lemma CalculateLB_rest_length [simp]:
  "length (CalculateLB_rest set_index upper_size lower_size upper_idx index) = length index"
  by (induction set_index upper_size lower_size upper_idx index rule: CalculateLB_rest.induct)
     (subst CalculateLB_rest.simps, simp)

lemma CalculateLB_rest_nth:
  "0 \<le> upper_idx \<Longrightarrow> i < length index \<Longrightarrow>
   CalculateLB_rest set_index upper_size lower_size upper_idx index ! i =
     (if upper_idx \<le> int i \<and> int i < upper_size then set_index (index ! i) lower_size
      else index ! i)"
proof (induction set_index upper_size lower_size upper_idx index
       rule: CalculateLB_rest.induct)
  case (1 set_index upper_size lower_size upper_idx index)
  show ?case
  proof (cases "upper_idx < upper_size")
    case True
    with 1 show ?thesis
      by (subst CalculateLB_rest.simps) (auto simp: nth_list_update)
  next
    case False
    with 1 show ?thesis
      by (subst CalculateLB_rest.simps) auto
  qed
qed

lemma CalculateRB_rest_length [simp]:
  "length (CalculateRB_rest set_index upper_idx index) = length index"
  by (induction set_index upper_idx index rule: CalculateRB_rest.induct)
     (subst CalculateRB_rest.simps, simp)

lemma CalculateRB_rest_nth:
  "i < length index \<Longrightarrow>
   CalculateRB_rest set_index upper_idx index ! i =
     (if int i \<le> upper_idx then set_index (index ! i) (- 1) else index ! i)"
proof (induction set_index upper_idx index rule: CalculateRB_rest.induct)
  case (1 set_index upper_idx index)
  show ?case
  proof (cases "upper_idx \<ge> 0")
    case True
    with 1 show ?thesis
      by (subst CalculateRB_rest.simps) (auto simp: nth_list_update)
  next
    case False
    with 1 show ?thesis
      by (subst CalculateRB_rest.simps) auto
  qed
qed

lemma first_index_eqI:
  assumes "v \<le> n" and "\<And>j. j < v \<Longrightarrow> \<not> P j" and "v < n \<Longrightarrow> P v"
  shows "first_index P n = int v"
proof -
  have split: "[0..<n] = [0..<v] @ [v..<n]"
    using assms(1) by (metis le_add_diff_inverse upt_add_eq_append zero_le)
  have none: "filter P [0..<v] = []"
    using assms(2) by (auto simp: filter_empty_conv)
  show ?thesis
  proof (cases "v < n")
    case True
    then have "[v..<n] = v # [Suc v..<n]" by (simp add: upt_conv_Cons)
    with split none assms(3)[OF True] show ?thesis by (simp add: first_index_def)
  next
    case False
    with assms(1) have "v = n" by simp
    with none show ?thesis by (simp add: first_index_def)
  qed
qed

lemma last_index_eqI:
  assumes "- 1 \<le> v" and "v < int n" and "\<And>j. v < int j \<Longrightarrow> j < n \<Longrightarrow> \<not> P j"
    and "0 \<le> v \<Longrightarrow> P (nat v)"
  shows "last_index P n = v"
proof -
  define k where "k = nat (v + 1)"
  have k: "k \<le> n" "int k = v + 1" using assms(1,2) by (auto simp: k_def)
  have split: "[0..<n] = [0..<k] @ [k..<n]"
    using k(1) by (metis le_add_diff_inverse upt_add_eq_append zero_le)
  have none: "filter P [k..<n] = []"
    using assms(3) k(2) by (auto simp: filter_empty_conv)
  show ?thesis
  proof (cases "0 \<le> v")
    case True
    then obtain k' where k': "k = Suc k'" "k' = nat v" using k(2) by (cases k) auto
    have "P k'" using assms(4)[OF True] k' by simp
    then show ?thesis using split none k' True by (simp add: last_index_def)
  next
    case False
    with assms(1) have "v = - 1" by simp
    with k have "k = 0" by simp
    with none \<open>v = - 1\<close> show ?thesis by (simp add: last_index_def)
  qed
qed

lemma CalculateLB_merge_spec:
  "(\<And>a b. (cmp_op a b = 0) = (fu a = (gl b :: 'k::linorder))) \<Longrightarrow>
   (\<And>a b. (cmp_op a b > 0) = (gl b < fu a)) \<Longrightarrow>
   sorted_wrt (<) (map fu upper) \<Longrightarrow>
   us = int (length upper) \<Longrightarrow> ls = int (length lower) \<Longrightarrow>
   0 \<le> ui \<Longrightarrow> ui \<le> us \<Longrightarrow> 0 \<le> li \<Longrightarrow> li \<le> ls \<Longrightarrow>
   (ui < us \<Longrightarrow> \<forall>j. int j < li \<longrightarrow> gl (lower ! j) < fu (upper ! nat ui)) \<Longrightarrow>
   i < length index \<Longrightarrow>
   (case CalculateLB_merge upper lower cmp_op set_index us ls ui li index of
      (ui', index') \<Rightarrow>
        length index' = length index \<and> 0 \<le> ui' \<and>
        CalculateLB_rest set_index us ls ui' index' ! i =
          (if ui \<le> int i \<and> int i < us
           then set_index (index ! i)
                  (first_index (\<lambda>j. fu (upper ! i) \<le> gl (lower ! j)) (length lower))
           else index ! i))"
proof (induction upper lower cmp_op set_index us ls ui li index
       rule: CalculateLB_merge.induct)
  case (1 upper lower cmp_op set_index us ls ui li index)
  note eq0 = "1.prems"(1) and gt0 = "1.prems"(2) and srt = "1.prems"(3)
    and us = "1.prems"(4) and ls = "1.prems"(5)
    and ui0 = "1.prems"(6) and uius = "1.prems"(7) and li0 = "1.prems"(8)
    and lils = "1.prems"(9) and inv = "1.prems"(10) and i = "1.prems"(11)
  have mono: "fu (upper ! a) < fu (upper ! b)" if "a < b" "b < length upper" for a b
    using sorted_wrt_nth_less[OF srt, of a b] that by simp
  have mono_le: "fu (upper ! a) \<le> fu (upper ! b)" if "a \<le> b" "b < length upper" for a b
    using mono[of a b] that by (cases "a = b") auto
  let ?spec = "\<lambda>i. first_index (\<lambda>j. fu (upper ! i) \<le> gl (lower ! j)) (length lower)"
  show ?case
  proof (cases "ui < us \<and> li < ls")
    case False
    have "?spec i = ls" if "ui \<le> int i" "int i < us"
    proof -
      from that False lils have "li = ls" "ui < us" by auto
      have "\<not> fu (upper ! i) \<le> gl (lower ! j)" if "j < length lower" for j
      proof -
        have "gl (lower ! j) < fu (upper ! nat ui)"
          using inv[OF \<open>ui < us\<close>] that \<open>li = ls\<close> ls by simp
        moreover have "fu (upper ! nat ui) \<le> fu (upper ! i)"
          using mono_le[of "nat ui" i] \<open>ui \<le> int i\<close> \<open>int i < us\<close> us ui0 by simp
        ultimately show ?thesis by simp
      qed
      then show ?thesis using first_index_eqI[of "length lower" "length lower"] ls by simp
    qed
    moreover have "CalculateLB_merge upper lower cmp_op set_index us ls ui li index = (ui, index)"
      by (subst CalculateLB_merge.simps) (simp only: False if_False)
    ultimately show ?thesis using ui0 i
      by (simp add: CalculateLB_rest_nth)
  next
    case True
    then have ui: "ui < us" and li: "li < ls" by auto
    let ?cmp = "cmp_op (upper ! nat ui) (lower ! nat li)"
    have nui: "nat ui < length upper" and nli: "nat li < length lower"
      using ui li us ls ui0 li0 by auto
    have below: "gl (lower ! j) < fu (upper ! nat ui)" if "int j < li" for j
      using inv[OF ui] that by simp
    show ?thesis
    proof (cases "?cmp = 0")
      case c0: True
      then have keq: "fu (upper ! nat ui) = gl (lower ! nat li)" using eq0 by simp
      have spec_ui: "?spec (nat ui) = li"
        using first_index_eqI[of "nat li" "length lower"
            "\<lambda>j. fu (upper ! nat ui) \<le> gl (lower ! j)"] nli below keq li0
        by (simp add: not_le)
      have inv': "\<forall>j. int j < li + 1 \<longrightarrow> gl (lower ! j) < fu (upper ! nat (ui + 1))"
        if "ui + 1 < us"
      proof (intro allI impI)
        fix j assume "int j < li + 1"
        have lt: "fu (upper ! nat ui) < fu (upper ! nat (ui + 1))"
          using mono[of "nat ui" "nat (ui + 1)"] that us ui0 by simp
        show "gl (lower ! j) < fu (upper ! nat (ui + 1))"
        proof (cases "int j < li")
          case True
          with below lt show ?thesis by (meson less_trans)
        next
          case False
          with \<open>int j < li + 1\<close> have "j = nat li" by simp
          with keq lt show ?thesis by simp
        qed
      qed
      have IH: "case CalculateLB_merge upper lower cmp_op set_index us ls (ui + 1) (li + 1)
                  (index[nat ui := set_index (index ! nat ui) li]) of
         (ui', index') \<Rightarrow>
           length index' = length (index[nat ui := set_index (index ! nat ui) li]) \<and> 0 \<le> ui' \<and>
           CalculateLB_rest set_index us ls ui' index' ! i =
             (if ui + 1 \<le> int i \<and> int i < us
              then set_index (index[nat ui := set_index (index ! nat ui) li] ! i) (?spec i)
              else index[nat ui := set_index (index ! nat ui) li] ! i)"
        using "1.IH"(1)[OF True refl c0 eq0 gt0 srt us ls _ _ _ _ inv']
          ui0 ui li0 li i by simp
      have step: "CalculateLB_merge upper lower cmp_op set_index us ls ui li index =
         CalculateLB_merge upper lower cmp_op set_index us ls (ui + 1) (li + 1)
                  (index[nat ui := set_index (index ! nat ui) li])"
        using True c0 by (subst CalculateLB_merge.simps) simp
      show ?thesis
        using IH spec_ui ui0 i ui unfolding step
        by (auto simp: nth_list_update split: prod.splits)
    next
      case cn0: False
      show ?thesis
      proof (cases "?cmp > 0")
        case cgt: True
        then have klt: "gl (lower ! nat li) < fu (upper ! nat ui)" using gt0 by simp
        have inv': "\<forall>j. int j < li + 1 \<longrightarrow> gl (lower ! j) < fu (upper ! nat ui)"
        proof (intro allI impI)
          fix j assume "int j < li + 1"
          show "gl (lower ! j) < fu (upper ! nat ui)"
          proof (cases "int j < li")
            case True
            with below show ?thesis by simp
          next
            case False
            with \<open>int j < li + 1\<close> have "j = nat li" by simp
            with klt show ?thesis by simp
          qed
        qed
        have IH: "case CalculateLB_merge upper lower cmp_op set_index us ls ui (li + 1) index of
           (ui', index') \<Rightarrow>
             length index' = length index \<and> 0 \<le> ui' \<and>
             CalculateLB_rest set_index us ls ui' index' ! i =
               (if ui \<le> int i \<and> int i < us
                then set_index (index ! i) (?spec i)
                else index ! i)"
          using "1.IH"(2)[OF True refl cn0 cgt eq0 gt0 srt us ls _ _ _ _ inv']
            ui0 uius li0 li i by simp
        have step: "CalculateLB_merge upper lower cmp_op set_index us ls ui li index =
           CalculateLB_merge upper lower cmp_op set_index us ls ui (li + 1) index"
          using True cn0 cgt by (subst CalculateLB_merge.simps) simp
        show ?thesis using IH unfolding step by simp
      next
        case clt: False
        have klt: "fu (upper ! nat ui) < gl (lower ! nat li)"
          using cn0 clt eq0[of "upper ! nat ui" "lower ! nat li"]
            gt0[of "upper ! nat ui" "lower ! nat li"] by auto
        have spec_ui: "?spec (nat ui) = li"
          using first_index_eqI[of "nat li" "length lower"
              "\<lambda>j. fu (upper ! nat ui) \<le> gl (lower ! j)"] nli below klt li0
          by (simp add: not_le)
        have inv': "\<forall>j. int j < li \<longrightarrow> gl (lower ! j) < fu (upper ! nat (ui + 1))"
          if "ui + 1 < us"
        proof (intro allI impI)
          fix j assume "int j < li"
          have lt: "fu (upper ! nat ui) < fu (upper ! nat (ui + 1))"
            using mono[of "nat ui" "nat (ui + 1)"] that us ui0 by simp
          with below[OF \<open>int j < li\<close>] show "gl (lower ! j) < fu (upper ! nat (ui + 1))"
            by (meson less_trans)
        qed
        have IH: "case CalculateLB_merge upper lower cmp_op set_index us ls (ui + 1) li
                    (index[nat ui := set_index (index ! nat ui) li]) of
           (ui', index') \<Rightarrow>
             length index' = length (index[nat ui := set_index (index ! nat ui) li]) \<and> 0 \<le> ui' \<and>
             CalculateLB_rest set_index us ls ui' index' ! i =
               (if ui + 1 \<le> int i \<and> int i < us
                then set_index (index[nat ui := set_index (index ! nat ui) li] ! i) (?spec i)
                else index[nat ui := set_index (index ! nat ui) li] ! i)"
          using "1.IH"(3)[OF True refl cn0 clt eq0 gt0 srt us ls _ _ _ _ inv']
            ui0 ui li0 lils i by simp
        have step: "CalculateLB_merge upper lower cmp_op set_index us ls ui li index =
           CalculateLB_merge upper lower cmp_op set_index us ls (ui + 1) li
                    (index[nat ui := set_index (index ! nat ui) li])"
          using True cn0 clt by (subst CalculateLB_merge.simps) simp
        show ?thesis
          using IH spec_ui ui0 i ui unfolding step
          by (auto simp: nth_list_update split: prod.splits)
      qed
    qed
  qed
qed

lemma CalculateRB_merge_spec:
  "(\<And>a b. (cmp_op a b = 0) = (fu a = (gl b :: 'k::linorder))) \<Longrightarrow>
   (\<And>a b. (cmp_op a b < 0) = (fu a < gl b)) \<Longrightarrow>
   sorted_wrt (<) (map fu upper) \<Longrightarrow>
   - 1 \<le> ui \<Longrightarrow> ui < int (length upper) \<Longrightarrow> - 1 \<le> li \<Longrightarrow> li < int (length lower) \<Longrightarrow>
   (0 \<le> ui \<Longrightarrow> \<forall>j. li < int j \<longrightarrow> j < length lower \<longrightarrow> fu (upper ! nat ui) < gl (lower ! j)) \<Longrightarrow>
   i < length index \<Longrightarrow>
   (case CalculateRB_merge upper lower cmp_op set_index ui li index of
      (ui', index') \<Rightarrow>
        length index' = length index \<and>
        CalculateRB_rest set_index ui' index' ! i =
          (if int i \<le> ui
           then set_index (index ! i)
                  (last_index (\<lambda>j. gl (lower ! j) \<le> fu (upper ! i)) (length lower))
           else index ! i))"
proof (induction upper lower cmp_op set_index ui li index rule: CalculateRB_merge.induct)
  case (1 upper lower cmp_op set_index ui li index)
  note eq0 = "1.prems"(1) and lt0 = "1.prems"(2) and srt = "1.prems"(3)
    and ui1 = "1.prems"(4) and uius = "1.prems"(5) and li1 = "1.prems"(6)
    and lils = "1.prems"(7) and inv = "1.prems"(8) and i = "1.prems"(9)
  have mono: "fu (upper ! a) < fu (upper ! b)" if "a < b" "b < length upper" for a b
    using sorted_wrt_nth_less[OF srt, of a b] that by simp
  have mono_le: "fu (upper ! a) \<le> fu (upper ! b)" if "a \<le> b" "b < length upper" for a b
    using mono[of a b] that by (cases "a = b") auto
  let ?spec = "\<lambda>i. last_index (\<lambda>j. gl (lower ! j) \<le> fu (upper ! i)) (length lower)"
  show ?case
  proof (cases "ui \<ge> 0 \<and> li \<ge> 0")
    case False
    have "?spec i = - 1" if "int i \<le> ui"
    proof -
      from that False li1 have "li = - 1" "0 \<le> ui" by auto
      have "\<not> gl (lower ! j) \<le> fu (upper ! i)" if "j < length lower" for j
      proof -
        have "fu (upper ! nat ui) < gl (lower ! j)"
          using inv[OF \<open>0 \<le> ui\<close>] that \<open>li = - 1\<close> by simp
        moreover have "fu (upper ! i) \<le> fu (upper ! nat ui)"
          using mono_le[of i "nat ui"] \<open>int i \<le> ui\<close> uius by simp
        ultimately show ?thesis by simp
      qed
      then show ?thesis
        using last_index_eqI[of "- 1" "length lower" "\<lambda>j. gl (lower ! j) \<le> fu (upper ! i)"]
        by simp
    qed
    moreover have "CalculateRB_merge upper lower cmp_op set_index ui li index = (ui, index)"
      by (subst CalculateRB_merge.simps) (simp only: False if_False)
    ultimately show ?thesis using i
      by (simp add: CalculateRB_rest_nth)
  next
    case True
    then have ui: "0 \<le> ui" and li: "0 \<le> li" by auto
    let ?cmp = "cmp_op (upper ! nat ui) (lower ! nat li)"
    have nui: "nat ui < length upper" and nli: "nat li < length lower"
      using ui li uius lils by auto
    have above: "fu (upper ! nat ui) < gl (lower ! j)" if "li < int j" "j < length lower" for j
      using inv[OF ui] that by simp
    have prev: "fu (upper ! nat (ui - 1)) < fu (upper ! nat ui)" if "0 \<le> ui - 1"
      using mono[of "nat (ui - 1)" "nat ui"] that nui by simp
    show ?thesis
    proof (cases "?cmp = 0")
      case c0: True
      then have keq: "fu (upper ! nat ui) = gl (lower ! nat li)" using eq0 by simp
      have spec_ui: "?spec (nat ui) = li"
        using last_index_eqI[of li "length lower"
            "\<lambda>j. gl (lower ! j) \<le> fu (upper ! nat ui)"] lils above keq li
        by (simp add: not_le)
      have inv': "\<forall>j. li - 1 < int j \<longrightarrow> j < length lower \<longrightarrow>
                     fu (upper ! nat (ui - 1)) < gl (lower ! j)"
        if "0 \<le> ui - 1"
      proof (intro allI impI)
        fix j assume j: "li - 1 < int j" "j < length lower"
        show "fu (upper ! nat (ui - 1)) < gl (lower ! j)"
        proof (cases "li < int j")
          case True
          with above j prev[OF that] show ?thesis by (meson less_trans)
        next
          case False
          with j have "j = nat li" by simp
          with keq prev[OF that] show ?thesis by simp
        qed
      qed
      have IH: "case CalculateRB_merge upper lower cmp_op set_index (ui - 1) (li - 1)
                  (index[nat ui := set_index (index ! nat ui) li]) of
         (ui', index') \<Rightarrow>
           length index' = length (index[nat ui := set_index (index ! nat ui) li]) \<and>
           CalculateRB_rest set_index ui' index' ! i =
             (if int i \<le> ui - 1
              then set_index (index[nat ui := set_index (index ! nat ui) li] ! i) (?spec i)
              else index[nat ui := set_index (index ! nat ui) li] ! i)"
        using "1.IH"(1)[OF True refl c0 eq0 lt0 srt _ _ _ _ inv']
          ui uius li lils i by simp
      have step: "CalculateRB_merge upper lower cmp_op set_index ui li index =
         CalculateRB_merge upper lower cmp_op set_index (ui - 1) (li - 1)
                  (index[nat ui := set_index (index ! nat ui) li])"
        using True c0 by (subst CalculateRB_merge.simps) simp
      show ?thesis
        using IH spec_ui ui i unfolding step
        by (auto simp: nth_list_update split: prod.splits)
    next
      case cn0: False
      show ?thesis
      proof (cases "?cmp < 0")
        case clt: True
        then have klt: "fu (upper ! nat ui) < gl (lower ! nat li)" using lt0 by simp
        have inv': "\<forall>j. li - 1 < int j \<longrightarrow> j < length lower \<longrightarrow>
                       fu (upper ! nat ui) < gl (lower ! j)"
        proof (intro allI impI)
          fix j assume j: "li - 1 < int j" "j < length lower"
          show "fu (upper ! nat ui) < gl (lower ! j)"
          proof (cases "li < int j")
            case True
            with above j show ?thesis by simp
          next
            case False
            with j have "j = nat li" by simp
            with klt show ?thesis by simp
          qed
        qed
        have IH: "case CalculateRB_merge upper lower cmp_op set_index ui (li - 1) index of
           (ui', index') \<Rightarrow>
             length index' = length index \<and>
             CalculateRB_rest set_index ui' index' ! i =
               (if int i \<le> ui
                then set_index (index ! i) (?spec i)
                else index ! i)"
          using "1.IH"(2)[OF True refl cn0 clt eq0 lt0 srt _ _ _ _ inv']
            ui1 uius li lils i by simp
        have step: "CalculateRB_merge upper lower cmp_op set_index ui li index =
           CalculateRB_merge upper lower cmp_op set_index ui (li - 1) index"
          using True cn0 clt by (subst CalculateRB_merge.simps) simp
        show ?thesis using IH unfolding step by simp
      next
        case cgt: False
        have kgt: "gl (lower ! nat li) < fu (upper ! nat ui)"
          using cn0 cgt eq0[of "upper ! nat ui" "lower ! nat li"]
            lt0[of "upper ! nat ui" "lower ! nat li"] by auto
        have spec_ui: "?spec (nat ui) = li"
          using last_index_eqI[of li "length lower"
              "\<lambda>j. gl (lower ! j) \<le> fu (upper ! nat ui)"] lils above kgt li
          by (simp add: not_le)
        have inv': "\<forall>j. li < int j \<longrightarrow> j < length lower \<longrightarrow>
                       fu (upper ! nat (ui - 1)) < gl (lower ! j)"
          if "0 \<le> ui - 1"
        proof (intro allI impI)
          fix j assume j: "li < int j" "j < length lower"
          with above prev[OF that] show "fu (upper ! nat (ui - 1)) < gl (lower ! j)"
            by (meson less_trans)
        qed
        have IH: "case CalculateRB_merge upper lower cmp_op set_index (ui - 1) li
                    (index[nat ui := set_index (index ! nat ui) li]) of
           (ui', index') \<Rightarrow>
             length index' = length (index[nat ui := set_index (index ! nat ui) li]) \<and>
             CalculateRB_rest set_index ui' index' ! i =
               (if int i \<le> ui - 1
                then set_index (index[nat ui := set_index (index ! nat ui) li] ! i) (?spec i)
                else index[nat ui := set_index (index ! nat ui) li] ! i)"
          using "1.IH"(3)[OF True refl cn0 cgt eq0 lt0 srt _ _ _ _ inv']
            ui uius li1 lils i by simp
        have step: "CalculateRB_merge upper lower cmp_op set_index ui li index =
           CalculateRB_merge upper lower cmp_op set_index (ui - 1) li
                    (index[nat ui := set_index (index ! nat ui) li])"
          using True cn0 cgt by (subst CalculateRB_merge.simps) simp
        show ?thesis
          using IH spec_ui ui i unfolding step
          by (auto simp: nth_list_update split: prod.splits)
      qed
    qed
  qed
qed

lemma CalculateLB_merge_struct:
  "0 \<le> ui \<Longrightarrow>
   \<exists>ui' v. ui \<le> ui' \<and> ui' \<le> max ui us \<and>
     (\<forall>set_index index.
        fst (CalculateLB_merge upper lower cmp_op set_index us ls ui li index) = ui' \<and>
        length (snd (CalculateLB_merge upper lower cmp_op set_index us ls ui li index))
          = length index \<and>
        (\<forall>i < length index.
           snd (CalculateLB_merge upper lower cmp_op set_index us ls ui li index) ! i =
             (if ui \<le> int i \<and> int i < ui' then set_index (index ! i) (v i) else index ! i)))"
proof (induction upper lower cmp_op "st :: IndexUnit \<Rightarrow> int \<Rightarrow> IndexUnit" us ls ui li
    "ix :: IndexUnit list" rule: CalculateLB_merge.induct)
  case (1 upper lower cmp_op st us ls ui li ix)
  let ?cmp = "cmp_op (upper ! nat ui) (lower ! nat li)"
  let ?M = "CalculateLB_merge upper lower cmp_op"
  show ?case
  proof (cases "ui < us \<and> li < ls")
    case False
    have "?M set_index us ls ui li index = (ui, index)" for set_index index
      by (subst CalculateLB_merge.simps) (simp only: False if_False)
    then show ?thesis by (intro exI[of _ ui] exI[of _ "\<lambda>_. 0"]) simp
  next
    case True
    show ?thesis
    proof (cases "?cmp = 0")
      case c0: True
      from "1.IH"(1)[OF True refl c0] "1.prems"
      obtain ui' v where a: "ui + 1 \<le> ui'" "ui' \<le> max (ui + 1) us"
        and b: "\<And>set_index index.
          fst (?M set_index us ls (ui + 1) (li + 1) index) = ui' \<and>
          length (snd (?M set_index us ls (ui + 1) (li + 1) index)) = length index \<and>
          (\<forall>i < length index. snd (?M set_index us ls (ui + 1) (li + 1) index) ! i =
             (if ui + 1 \<le> int i \<and> int i < ui' then set_index (index ! i) (v i) else index ! i))"
        by auto
      have step: "?M set_index us ls ui li index =
         ?M set_index us ls (ui + 1) (li + 1) (index[nat ui := set_index (index ! nat ui) li])"
        for set_index index
        using True c0 by (subst CalculateLB_merge.simps) simp
      show ?thesis
      proof (intro exI[of _ ui'] exI[of _ "v(nat ui := li)"] conjI allI impI)
        show "ui \<le> ui'" using a by simp
        show "ui' \<le> max ui us" using a True by simp
      next
        fix set_index and index :: "IndexUnit list"
        show "fst (?M set_index us ls ui li index) = ui'"
          unfolding step using b by simp
        show "length (snd (?M set_index us ls ui li index)) = length index"
          unfolding step using b by simp
      next
        fix set_index and index :: "IndexUnit list" and i assume "i < length index"
        then show "snd (?M set_index us ls ui li index) ! i =
          (if ui \<le> int i \<and> int i < ui' then set_index (index ! i) ((v(nat ui := li)) i)
           else index ! i)"
          unfolding step
          using b[of set_index "index[nat ui := set_index (index ! nat ui) li]"] a "1.prems"
          by (auto simp: nth_list_update)
      qed
    next
      case cn0: False
      show ?thesis
      proof (cases "?cmp > 0")
        case cgt: True
        from "1.IH"(2)[OF True refl cn0 cgt] "1.prems"
        obtain ui' v where a: "ui \<le> ui'" "ui' \<le> max ui us"
          and b: "\<And>set_index index.
            fst (?M set_index us ls ui (li + 1) index) = ui' \<and>
            length (snd (?M set_index us ls ui (li + 1) index)) = length index \<and>
            (\<forall>i < length index. snd (?M set_index us ls ui (li + 1) index) ! i =
               (if ui \<le> int i \<and> int i < ui' then set_index (index ! i) (v i) else index ! i))"
          by auto
        have step: "?M set_index us ls ui li index = ?M set_index us ls ui (li + 1) index"
          for set_index index
          using True cn0 cgt by (subst CalculateLB_merge.simps) simp
        show ?thesis
          unfolding step using a b by (intro exI[of _ ui'] exI[of _ v]) simp
      next
        case clt: False
        from "1.IH"(3)[OF True refl cn0 clt] "1.prems"
        obtain ui' v where a: "ui + 1 \<le> ui'" "ui' \<le> max (ui + 1) us"
          and b: "\<And>set_index index.
            fst (?M set_index us ls (ui + 1) li index) = ui' \<and>
            length (snd (?M set_index us ls (ui + 1) li index)) = length index \<and>
            (\<forall>i < length index. snd (?M set_index us ls (ui + 1) li index) ! i =
               (if ui + 1 \<le> int i \<and> int i < ui' then set_index (index ! i) (v i) else index ! i))"
          by auto
        have step: "?M set_index us ls ui li index =
           ?M set_index us ls (ui + 1) li (index[nat ui := set_index (index ! nat ui) li])"
          for set_index index
          using True cn0 clt by (subst CalculateLB_merge.simps) simp
        show ?thesis
        proof (intro exI[of _ ui'] exI[of _ "v(nat ui := li)"] conjI allI impI)
          show "ui \<le> ui'" using a by simp
          show "ui' \<le> max ui us" using a True by simp
        next
          fix set_index and index :: "IndexUnit list"
          show "fst (?M set_index us ls ui li index) = ui'"
            unfolding step using b by simp
          show "length (snd (?M set_index us ls ui li index)) = length index"
            unfolding step using b by simp
        next
          fix set_index and index :: "IndexUnit list" and i assume "i < length index"
          then show "snd (?M set_index us ls ui li index) ! i =
            (if ui \<le> int i \<and> int i < ui' then set_index (index ! i) ((v(nat ui := li)) i)
             else index ! i)"
            unfolding step
            using b[of set_index "index[nat ui := set_index (index ! nat ui) li]"] a "1.prems"
            by (auto simp: nth_list_update)
        qed
      qed
    qed
  qed
qed

lemma CalculateLB_struct:
  "\<exists>v. \<forall>set_index index.
     length (CalculateLB upper lower index cmp_op set_index) = length index \<and>
     (\<forall>i < length index.
        CalculateLB upper lower index cmp_op set_index ! i =
          (if int i < int32_cast (int (length upper)) then set_index (index ! i) (v i)
           else index ! i))"
proof -
  let ?us = "int32_cast (int (length upper))" and ?ls = "int32_cast (int (length lower))"
  let ?M = "CalculateLB_merge upper lower cmp_op"
  from CalculateLB_merge_struct[of 0 ?us upper lower cmp_op ?ls 0]
  obtain ui' v where a: "0 \<le> ui'" "ui' \<le> max 0 ?us"
    and b: "\<And>set_index index.
        fst (?M set_index ?us ?ls 0 0 index) = ui' \<and>
        length (snd (?M set_index ?us ?ls 0 0 index)) = length index \<and>
        (\<forall>i < length index. snd (?M set_index ?us ?ls 0 0 index) ! i =
           (if 0 \<le> int i \<and> int i < ui' then set_index (index ! i) (v i) else index ! i))"
    by auto
  have eq: "CalculateLB upper lower index cmp_op set_index =
      CalculateLB_rest set_index ?us ?ls ui' (snd (?M set_index ?us ?ls 0 0 index))"
    for set_index index
    using b[of set_index index] by (simp add: CalculateLB_def Let_def case_prod_beta)
  show ?thesis
  proof (intro exI[of _ "\<lambda>i. if int i < ui' then v i else ?ls"] allI conjI impI)
    fix set_index and index :: "IndexUnit list"
    show "length (CalculateLB upper lower index cmp_op set_index) = length index"
      unfolding eq using b by simp
  next
    fix set_index and index :: "IndexUnit list" and i assume "i < length index"
    then show "CalculateLB upper lower index cmp_op set_index ! i =
       (if int i < ?us then set_index (index ! i) (if int i < ui' then v i else ?ls)
        else index ! i)"
      unfolding eq using b[of set_index index] a
      by (auto simp: CalculateLB_rest_nth)
  qed
qed

lemma CalculateRB_merge_struct:
  "\<exists>ui' v. ui' \<le> ui \<and>
     (\<forall>set_index index.
        fst (CalculateRB_merge upper lower cmp_op set_index ui li index) = ui' \<and>
        length (snd (CalculateRB_merge upper lower cmp_op set_index ui li index))
          = length index \<and>
        (\<forall>i < length index.
           snd (CalculateRB_merge upper lower cmp_op set_index ui li index) ! i =
             (if ui' < int i \<and> int i \<le> ui then set_index (index ! i) (v i) else index ! i)))"
proof (induction upper lower cmp_op "st :: IndexUnit \<Rightarrow> int \<Rightarrow> IndexUnit" ui li
    "ix :: IndexUnit list" rule: CalculateRB_merge.induct)
  case (1 upper lower cmp_op st ui li ix)
  let ?cmp = "cmp_op (upper ! nat ui) (lower ! nat li)"
  let ?M = "CalculateRB_merge upper lower cmp_op"
  show ?case
  proof (cases "ui \<ge> 0 \<and> li \<ge> 0")
    case False
    have "?M set_index ui li index = (ui, index)" for set_index index
      by (subst CalculateRB_merge.simps) (simp only: False if_False)
    then show ?thesis by (intro exI[of _ ui] exI[of _ "\<lambda>_. 0"]) simp
  next
    case True
    show ?thesis
    proof (cases "?cmp = 0")
      case c0: True
      from "1.IH"(1)[OF True refl c0]
      obtain ui' v where a: "ui' \<le> ui - 1"
        and b: "\<And>set_index index.
          fst (?M set_index (ui - 1) (li - 1) index) = ui' \<and>
          length (snd (?M set_index (ui - 1) (li - 1) index)) = length index \<and>
          (\<forall>i < length index. snd (?M set_index (ui - 1) (li - 1) index) ! i =
             (if ui' < int i \<and> int i \<le> ui - 1 then set_index (index ! i) (v i) else index ! i))"
        by auto
      have step: "?M set_index ui li index =
         ?M set_index (ui - 1) (li - 1) (index[nat ui := set_index (index ! nat ui) li])"
        for set_index index
        using True c0 by (subst CalculateRB_merge.simps) simp
      show ?thesis
      proof (intro exI[of _ ui'] exI[of _ "v(nat ui := li)"] conjI allI impI)
        show "ui' \<le> ui" using a by simp
      next
        fix set_index and index :: "IndexUnit list"
        show "fst (?M set_index ui li index) = ui'"
          unfolding step using b by simp
        show "length (snd (?M set_index ui li index)) = length index"
          unfolding step using b by simp
      next
        fix set_index and index :: "IndexUnit list" and i assume "i < length index"
        then show "snd (?M set_index ui li index) ! i =
          (if ui' < int i \<and> int i \<le> ui then set_index (index ! i) ((v(nat ui := li)) i)
           else index ! i)"
          unfolding step
          using b[of set_index "index[nat ui := set_index (index ! nat ui) li]"] a True
          by (auto simp: nth_list_update)
      qed
    next
      case cn0: False
      show ?thesis
      proof (cases "?cmp < 0")
        case clt: True
        from "1.IH"(2)[OF True refl cn0 clt]
        obtain ui' v where a: "ui' \<le> ui"
          and b: "\<And>set_index index.
            fst (?M set_index ui (li - 1) index) = ui' \<and>
            length (snd (?M set_index ui (li - 1) index)) = length index \<and>
            (\<forall>i < length index. snd (?M set_index ui (li - 1) index) ! i =
               (if ui' < int i \<and> int i \<le> ui then set_index (index ! i) (v i) else index ! i))"
          by auto
        have step: "?M set_index ui li index = ?M set_index ui (li - 1) index"
          for set_index index
          using True cn0 clt by (subst CalculateRB_merge.simps) simp
        show ?thesis
          unfolding step using a b by (intro exI[of _ ui'] exI[of _ v]) simp
      next
        case cgt: False
        from "1.IH"(3)[OF True refl cn0 cgt]
        obtain ui' v where a: "ui' \<le> ui - 1"
          and b: "\<And>set_index index.
            fst (?M set_index (ui - 1) li index) = ui' \<and>
            length (snd (?M set_index (ui - 1) li index)) = length index \<and>
            (\<forall>i < length index. snd (?M set_index (ui - 1) li index) ! i =
               (if ui' < int i \<and> int i \<le> ui - 1 then set_index (index ! i) (v i) else index ! i))"
          by auto
        have step: "?M set_index ui li index =
           ?M set_index (ui - 1) li (index[nat ui := set_index (index ! nat ui) li])"
          for set_index index
          using True cn0 cgt by (subst CalculateRB_merge.simps) simp
        show ?thesis
        proof (intro exI[of _ ui'] exI[of _ "v(nat ui := li)"] conjI allI impI)
          show "ui' \<le> ui" using a by simp
        next
          fix set_index and index :: "IndexUnit list"
          show "fst (?M set_index ui li index) = ui'"
            unfolding step using b by simp
          show "length (snd (?M set_index ui li index)) = length index"
            unfolding step using b by simp
        next
          fix set_index and index :: "IndexUnit list" and i assume "i < length index"
          then show "snd (?M set_index ui li index) ! i =
            (if ui' < int i \<and> int i \<le> ui then set_index (index ! i) ((v(nat ui := li)) i)
             else index ! i)"
            unfolding step
            using b[of set_index "index[nat ui := set_index (index ! nat ui) li]"] a True
            by (auto simp: nth_list_update)
        qed
      qed
    qed
  qed
qed

lemma CalculateRB_struct:
  "\<exists>v. \<forall>set_index index.
     length (CalculateRB upper lower index cmp_op set_index) = length index \<and>
     (\<forall>i < length index.
        CalculateRB upper lower index cmp_op set_index ! i =
          (if int i < int32_cast (int (length upper)) then set_index (index ! i) (v i)
           else index ! i))"
proof -
  let ?us = "int32_cast (int (length upper))" and ?ls = "int32_cast (int (length lower))"
  let ?M = "CalculateRB_merge upper lower cmp_op"
  from CalculateRB_merge_struct[of "?us - 1" upper lower cmp_op "?ls - 1"]
  obtain ui' v where a: "ui' \<le> ?us - 1"
    and b: "\<And>set_index index.
        fst (?M set_index (?us - 1) (?ls - 1) index) = ui' \<and>
        length (snd (?M set_index (?us - 1) (?ls - 1) index)) = length index \<and>
        (\<forall>i < length index. snd (?M set_index (?us - 1) (?ls - 1) index) ! i =
           (if ui' < int i \<and> int i \<le> ?us - 1 then set_index (index ! i) (v i) else index ! i))"
    by auto
  have eq: "CalculateRB upper lower index cmp_op set_index =
      CalculateRB_rest set_index ui' (snd (?M set_index (?us - 1) (?ls - 1) index))"
    for set_index index
    using b[of set_index index] by (simp add: CalculateRB_def Let_def case_prod_beta)
  show ?thesis
  proof (intro exI[of _ "\<lambda>i. if ui' < int i then v i else - 1"] allI conjI impI)
    fix set_index and index :: "IndexUnit list"
    show "length (CalculateRB upper lower index cmp_op set_index) = length index"
      unfolding eq using b by simp
  next
    fix set_index and index :: "IndexUnit list" and i assume "i < length index"
    then show "CalculateRB upper lower index cmp_op set_index ! i =
       (if int i < ?us then set_index (index ! i) (if ui' < int i then v i else - 1)
        else index ! i)"
      unfolding eq using b[of set_index index] a
      by (auto simp: CalculateRB_rest_nth)
  qed
qed

lemma comparator_ok_gt: "comparator_ok c \<Longrightarrow> (c a b > 0) = (b < a)"
  unfolding comparator_ok_def by (metis less_linear not_less_iff_gr_or_eq)

lemma level_sorted_smallest: "level_sorted fs \<Longrightarrow> sorted_wrt (<) (map smallest fs)"
  unfolding level_sorted_def sorted_wrt_map
  by (elim conjE, erule sorted_wrt_mono_rel[rotated]) (meson le_less_trans)

lemma level_sorted_largest: "level_sorted fs \<Longrightarrow> sorted_wrt (<) (map largest fs)"
  unfolding level_sorted_def sorted_wrt_map
  by (elim conjE, erule sorted_wrt_mono_rel[rotated]) (meson less_le_trans)

lemma CalculateLB_spec:
  assumes "\<And>a b. (cmp_op a b = 0) = (fu a = (gl b :: 'k::linorder))"
    and "\<And>a b. (cmp_op a b > 0) = (gl b < fu a)"
    and "sorted_wrt (<) (map fu upper)"
    and "length upper < 2 ^ 31" and "length lower < 2 ^ 31"
    and "i < length index"
  shows "CalculateLB upper lower index cmp_op set_index ! i =
          (if i < length upper
           then set_index (index ! i)
                  (first_index (\<lambda>j. fu (upper ! i) \<le> gl (lower ! j)) (length lower))
           else index ! i)"
  using CalculateLB_merge_spec[where cmp_op = cmp_op and fu = fu and gl = gl and upper = upper
      and us = "int (length upper)" and lower = lower and ls = "int (length lower)"
      and ui = 0 and li = 0 and i = i and index = index and set_index = set_index,
      OF assms(1,2,3)] assms(4,5,6)
  by (simp add: CalculateLB_def int32_cast_length case_prod_beta Let_def)

lemma CalculateRB_spec:
  assumes "\<And>a b. (cmp_op a b = 0) = (fu a = (gl b :: 'k::linorder))"
    and "\<And>a b. (cmp_op a b < 0) = (fu a < gl b)"
    and "sorted_wrt (<) (map fu upper)"
    and "length upper < 2 ^ 31" and "length lower < 2 ^ 31"
    and "i < length index"
  shows "CalculateRB upper lower index cmp_op set_index ! i =
          (if i < length upper
           then set_index (index ! i)
                  (last_index (\<lambda>j. gl (lower ! j) \<le> fu (upper ! i)) (length lower))
           else index ! i)"
  using CalculateRB_merge_spec[where cmp_op = cmp_op and fu = fu and gl = gl and upper = upper
      and ui = "int (length upper) - 1" and lower = lower and li = "int (length lower) - 1"
      and i = i and index = index and set_index = set_index,
      OF assms(1,2,3)] assms(4,5,6)
  by (auto simp add: CalculateRB_def int32_cast_length case_prod_beta Let_def)

lemma CalculateLB_length [simp]:
  "length (CalculateLB upper lower index cmp_op set_index) = length index"
  using CalculateLB_struct[of upper lower cmp_op] by auto

lemma CalculateRB_length [simp]:
  "length (CalculateRB upper lower index cmp_op set_index) = length index"
  using CalculateRB_struct[of upper lower cmp_op] by auto

lemma vector_resize_length [simp]: "length (vector_resize d n xs) = n"
  by (simp add: vector_resize_def)

lemma UpdateIndex_level_length [simp]:
  "length (UpdateIndex_level d c upper lower n index0) = n"
  by (simp add: UpdateIndex_level_def Let_def)

lemma UpdateIndex_level_spec:
  assumes c: "comparator_ok c" and srt: "level_sorted upper"
    and us: "length upper < 2 ^ 31" and ls: "length lower < 2 ^ 31"
    and i: "i < length upper"
  shows "UpdateIndex_level d c upper lower (length upper) index0 ! i = hint_of (upper ! i) lower"
proof -
  note s1 = level_sorted_smallest[OF srt] and s2 = level_sorted_largest[OF srt]
  have e: "(c a b = 0) = (a = b)" and l: "(c a b < 0) = (a < b)" and g: "(c a b > 0) = (b < a)"
    for a b
    using c comparator_ok_gt[OF c] by (auto simp: comparator_ok_def)
  define i0 where "i0 = vector_resize d (length upper) index0"
  define i1 where "i1 = CalculateLB upper lower i0 (\<lambda>a b. c (smallest a) (largest b))
                    (\<lambda>index f_idx. index\<lparr>smallest_lb := f_idx\<rparr>)"
  define i2 where "i2 = CalculateLB upper lower i1 (\<lambda>a b. c (largest a) (largest b))
                    (\<lambda>index f_idx. index\<lparr>largest_lb := f_idx\<rparr>)"
  define i3 where "i3 = CalculateRB upper lower i2 (\<lambda>a b. c (smallest a) (smallest b))
                    (\<lambda>index f_idx. index\<lparr>smallest_rb := f_idx\<rparr>)"
  define i4 where "i4 = CalculateRB upper lower i3 (\<lambda>a b. c (largest a) (smallest b))
                    (\<lambda>index f_idx. index\<lparr>largest_rb := f_idx\<rparr>)"
  have len: "length i0 = length upper" "length i1 = length upper" "length i2 = length upper"
    "length i3 = length upper"
    by (simp_all add: i0_def i1_def i2_def i3_def)
  have r: "UpdateIndex_level d c upper lower (length upper) index0 = i4"
    by (simp add: UpdateIndex_level_def Let_def i0_def i1_def i2_def i3_def i4_def)
  have n1: "i1 ! i = (i0 ! i)\<lparr>smallest_lb :=
      first_index (\<lambda>j. smallest (upper ! i) \<le> largest (lower ! j)) (length lower)\<rparr>"
    unfolding i1_def
    using CalculateLB_spec[of "\<lambda>a b. c (smallest a) (largest b)" smallest largest upper lower i i0]
      s1 us ls i len by (simp add: e g)
  have n2: "i2 ! i = (i1 ! i)\<lparr>largest_lb :=
      first_index (\<lambda>j. largest (upper ! i) \<le> largest (lower ! j)) (length lower)\<rparr>"
    unfolding i2_def
    using CalculateLB_spec[of "\<lambda>a b. c (largest a) (largest b)" largest largest upper lower i i1]
      s2 us ls i len by (simp add: e g)
  have n3: "i3 ! i = (i2 ! i)\<lparr>smallest_rb :=
      last_index (\<lambda>j. smallest (lower ! j) \<le> smallest (upper ! i)) (length lower)\<rparr>"
    unfolding i3_def
    using CalculateRB_spec[of "\<lambda>a b. c (smallest a) (smallest b)" smallest smallest upper lower i i2]
      s1 us ls i len by (simp add: e l)
  have n4: "i4 ! i = (i3 ! i)\<lparr>largest_rb :=
      last_index (\<lambda>j. smallest (lower ! j) \<le> largest (upper ! i)) (length lower)\<rparr>"
    unfolding i4_def
    using CalculateRB_spec[of "\<lambda>a b. c (largest a) (smallest b)" largest smallest upper lower i i3]
      s2 us ls i len by (simp add: e l)
  show ?thesis
    unfolding r n4 n3 n2 n1 hint_of_def by (cases "i0 ! i") simp
qed

lemma int32_cast_0 [simp]: "int32_cast 0 = 0"
  by (simp add: int32_cast_def)


lemma UpdateIndex_loop_spec:
  "valid_indexer s \<Longrightarrow> 1 \<le> num_levels s \<Longrightarrow> files_ok s files \<Longrightarrow>
   \<exists>s'. UpdateIndex_loop d files level s = Inr s' \<and>
     num_levels s' = num_levels s \<and> ucmp s' = ucmp s \<and>
     length (next_level_index s') = num_levels s \<and> length (level_rb s') = num_levels s \<and>
     (\<forall>u < num_levels s.
        level_rb s' ! u =
          (if level \<le> u \<and> u + 1 < num_levels s then int (length (files ! u)) - 1
           else level_rb s ! u) \<and>
        next_level_index s' ! u =
          (if level \<le> u \<and> u + 1 < num_levels s \<and> files ! u \<noteq> []
           then UpdateIndex_level d (ucmp s) (files ! u) (files ! (u + 1))
                  (length (files ! u)) (next_level_index s ! u)
           else next_level_index s ! u))"
proof (induction d files level s rule: UpdateIndex_loop.induct)
  case (1 d files level s)
  note v = "1.prems"(1) and L = "1.prems"(2) and f = "1.prems"(3)
  have sub: "uint32_sub (num_levels s) 1 = num_levels s - 1"
    using v L by (intro uint32_sub_one) (auto simp: valid_indexer_def)
  have sub': "uint32_sub (num_levels s) (Suc 0) = num_levels s - 1"
    using sub by simp
  have lens: "length files = num_levels s" "length (level_rb s) = num_levels s"
    "length (next_level_index s) = num_levels s"
    using v f by (auto simp: valid_indexer_def files_ok_def)
  have small: "length (files ! l) < 2 ^ 31" if "l < num_levels s" for l
    using f that by (auto simp: files_ok_def list_all_length)
  show ?case
  proof (cases "level < num_levels s - 1")
    case False
    then have "UpdateIndex_loop d files level s = Inr s"
      by (subst UpdateIndex_loop.simps) (simp add: sub')
    with False lens show ?thesis by auto
  next
    case True
    let ?upper = "files ! level"
    let ?s1 = "s\<lparr>level_rb := (level_rb s)[level := int32_cast (int (length ?upper) - 1)]\<rparr>"
    have inb: "\<not> (length files \<le> level + 1 \<or> length (level_rb s) \<le> level
           \<or> length (next_level_index s) \<le> level)"
      using True lens by auto
    have c1: "level < uint32_sub (num_levels s) 1" using True sub by simp
    have us: "int32_cast (int (length ?upper)) = int (length ?upper)"
      and us1: "int32_cast (int (length ?upper) - 1) = int (length ?upper) - 1"
      using small[of level] True by (auto intro: int32_cast_length int32_cast_length_pred)
    have v1: "valid_indexer ?s1" "1 \<le> num_levels ?s1" "files_ok ?s1 files"
      using v L f by (auto simp: valid_indexer_def files_ok_def)
    show ?thesis
    proof (cases "?upper = []")
      case e: True
      have step: "UpdateIndex_loop d files level s = UpdateIndex_loop d files (level + 1) ?s1"
        using True inb e by (subst UpdateIndex_loop.simps) (simp add: Let_def us sub')
      from "1.IH"(1)[OF c1 inb refl refl refl refl _ v1] e us
      obtain s' where s': "UpdateIndex_loop d files (level + 1) ?s1 = Inr s'"
        "num_levels s' = num_levels s" "ucmp s' = ucmp s"
        "length (next_level_index s') = num_levels s" "length (level_rb s') = num_levels s"
        and rest: "\<And>u. u < num_levels s \<Longrightarrow>
          level_rb s' ! u =
            (if level + 1 \<le> u \<and> u + 1 < num_levels s then int (length (files ! u)) - 1
             else level_rb ?s1 ! u) \<and>
          next_level_index s' ! u =
            (if level + 1 \<le> u \<and> u + 1 < num_levels s \<and> files ! u \<noteq> []
             then UpdateIndex_level d (ucmp s) (files ! u) (files ! (u + 1))
                    (length (files ! u)) (next_level_index ?s1 ! u)
             else next_level_index ?s1 ! u)"
        by auto
      have "level_rb s' ! u =
          (if level \<le> u \<and> u + 1 < num_levels s then int (length (files ! u)) - 1
           else level_rb s ! u) \<and>
        next_level_index s' ! u =
          (if level \<le> u \<and> u + 1 < num_levels s \<and> files ! u \<noteq> []
           then UpdateIndex_level d (ucmp s) (files ! u) (files ! (u + 1))
                  (length (files ! u)) (next_level_index s ! u)
           else next_level_index s ! u)" if "u < num_levels s" for u
        using rest[OF that] that True lens e us1
        by (cases "u = level") (auto simp: nth_list_update)
      with s' show ?thesis unfolding step by auto
    next
      case ne: False
      let ?ix = "UpdateIndex_level d (ucmp ?s1) ?upper (files ! (level + 1))
                   (nat (int32_cast (int (length ?upper)))) (next_level_index ?s1 ! level)"
      let ?s2 = "?s1\<lparr>next_level_index := (next_level_index ?s1)[level := ?ix]\<rparr>"
      have nz: "int32_cast (int (length ?upper)) \<noteq> 0" "\<not> int32_cast (int (length ?upper)) < 0"
        using ne us by auto
      have step: "UpdateIndex_loop d files level s = UpdateIndex_loop d files (level + 1) ?s2"
        using True inb nz by (subst UpdateIndex_loop.simps) (simp add: Let_def sub')
      have v2: "valid_indexer ?s2" "1 \<le> num_levels ?s2" "files_ok ?s2 files"
        using v L f by (auto simp: valid_indexer_def files_ok_def)
      from "1.IH"(2)[OF c1 inb refl refl refl refl nz v2]
      obtain s' where s': "UpdateIndex_loop d files (level + 1) ?s2 = Inr s'"
        "num_levels s' = num_levels s" "ucmp s' = ucmp s"
        "length (next_level_index s') = num_levels s" "length (level_rb s') = num_levels s"
        and rest: "\<And>u. u < num_levels s \<Longrightarrow>
          level_rb s' ! u =
            (if level + 1 \<le> u \<and> u + 1 < num_levels s then int (length (files ! u)) - 1
             else level_rb ?s2 ! u) \<and>
          next_level_index s' ! u =
            (if level + 1 \<le> u \<and> u + 1 < num_levels s \<and> files ! u \<noteq> []
             then UpdateIndex_level d (ucmp s) (files ! u) (files ! (u + 1))
                    (length (files ! u)) (next_level_index ?s2 ! u)
             else next_level_index ?s2 ! u)"
        by auto
      have "level_rb s' ! u =
          (if level \<le> u \<and> u + 1 < num_levels s then int (length (files ! u)) - 1
           else level_rb s ! u) \<and>
        next_level_index s' ! u =
          (if level \<le> u \<and> u + 1 < num_levels s \<and> files ! u \<noteq> []
           then UpdateIndex_level d (ucmp s) (files ! u) (files ! (u + 1))
                  (length (files ! u)) (next_level_index s ! u)
           else next_level_index s ! u)" if "u < num_levels s" for u
        using rest[OF that] that True lens ne us us1
        by (cases "u = level") (auto simp: nth_list_update)
      with s' show ?thesis unfolding step by auto
    qed
  qed
qed

lemma first_index_cases:
  obtains v where "v \<le> n" "\<And>j. j < v \<Longrightarrow> \<not> P j" "v < n \<Longrightarrow> P v" "first_index P n = int v"
proof -
  define v where "v = (if \<exists>j<n. P j then (LEAST j. j < n \<and> P j) else n)"
  have a: "v \<le> n"
  proof (cases "\<exists>j<n. P j")
    case True
    then have "(LEAST j. j < n \<and> P j) < n" by (metis (mono_tags, lifting) LeastI_ex)
    with True show ?thesis by (simp add: v_def)
  next
    case False
    then show ?thesis by (auto simp: v_def)
  qed
  have b: "\<not> P j" if "j < v" for j
  proof (cases "\<exists>j<n. P j")
    case True
    with that have "j < (LEAST j. j < n \<and> P j)" by (simp add: v_def)
    from not_less_Least[OF this] that a show ?thesis by auto
  next
    case False
    with that show ?thesis by (auto simp: v_def)
  qed
  have c: "P v" if "v < n"
  proof (cases "\<exists>j<n. P j")
    case True
    then have "P (LEAST j. j < n \<and> P j)" by (metis (mono_tags, lifting) LeastI_ex)
    with True show ?thesis by (simp add: v_def)
  next
    case False
    with that show ?thesis by (simp add: v_def)
  qed
  from first_index_eqI[where P = P and n = n and v = v, OF a b c] a b c that show thesis by blast
qed

lemma last_index_cases:
  obtains v where "- 1 \<le> v" "v < int n" "\<And>j. v < int j \<Longrightarrow> j < n \<Longrightarrow> \<not> Q j"
    "0 \<le> v \<Longrightarrow> Q (nat v)" "last_index Q n = v"
proof -
  have "\<exists>v. - 1 \<le> v \<and> v < int n \<and> (\<forall>j. v < int j \<longrightarrow> j < n \<longrightarrow> \<not> Q j) \<and> (0 \<le> v \<longrightarrow> Q (nat v))"
  proof (induction n)
    case 0
    show ?case by (intro exI[of _ "- 1"]) simp
  next
    case (Suc n)
    show ?case
    proof (cases "Q n")
      case True
      then show ?thesis by (intro exI[of _ "int n"]) auto
    next
      case False
      from Suc obtain v where v: "- 1 \<le> v" "v < int n"
        "\<And>j. v < int j \<Longrightarrow> j < n \<Longrightarrow> \<not> Q j" "0 \<le> v \<longrightarrow> Q (nat v)" by blast
      have "\<not> Q j" if "v < int j" "j < Suc n" for j
        using v(3)[of j] that False by (cases "j = n") auto
      with v show ?thesis by (intro exI[of _ v]) auto
    qed
  qed
  then obtain v where v: "- 1 \<le> v" "v < int n" "\<And>j. v < int j \<Longrightarrow> j < n \<Longrightarrow> \<not> Q j"
    "0 \<le> v \<Longrightarrow> Q (nat v)" by blast
  from last_index_eqI[where P = Q and n = n and v = v, OF v] v that show thesis by blast
qed

lemma first_index_bounds: "0 \<le> first_index P n" "first_index P n \<le> int n"
  by (rule first_index_cases[of n P]; simp)+

lemma last_index_bounds: "- 1 \<le> last_index Q n" "last_index Q n \<le> int n - 1"
  by (rule last_index_cases[of n Q]; simp)+

lemma first_index_le: "j < n \<Longrightarrow> P j \<Longrightarrow> first_index P n \<le> int j"
  by (rule first_index_cases[of n P]) (metis not_le_imp_less of_nat_le_iff)

lemma last_index_ge: "j < n \<Longrightarrow> Q j \<Longrightarrow> int j \<le> last_index Q n"
  by (rule last_index_cases[of n Q]) (metis not_le_imp_less)

lemma first_index_holds: "first_index P n < int n \<Longrightarrow> P (nat (first_index P n))"
  by (rule first_index_cases[of n P]) simp

lemma last_index_holds: "0 \<le> last_index Q n \<Longrightarrow> Q (nat (last_index Q n))"
  by (rule last_index_cases[of n Q]) simp

lemma first_index_before: "int j < first_index P n \<Longrightarrow> \<not> P j"
  by (rule first_index_cases[of n P]) simp

lemma last_index_after: "last_index Q n < int j \<Longrightarrow> j < n \<Longrightarrow> \<not> Q j"
  by (rule last_index_cases[of n Q]) simp

lemma first_index_antimono:
  assumes "\<And>j. j < n \<Longrightarrow> P' j \<Longrightarrow> P j"
  shows "first_index P n \<le> first_index P' n"
proof (cases "first_index P' n < int n")
  case True
  from first_index_holds[OF True] have "P' (nat (first_index P' n))" .
  moreover have "nat (first_index P' n) < n" using True first_index_bounds(1)[of P' n] by simp
  ultimately have "first_index P n \<le> int (nat (first_index P' n))"
    using assms first_index_le by blast
  then show ?thesis using first_index_bounds(1)[of P' n] by simp
next
  case False
  then show ?thesis using first_index_bounds(2)[of P n] by simp
qed

lemma last_index_mono:
  assumes "\<And>j. j < n \<Longrightarrow> Q j \<Longrightarrow> Q' j"
  shows "last_index Q n \<le> last_index Q' n"
proof (cases "0 \<le> last_index Q n")
  case True
  from last_index_holds[OF True] have "Q (nat (last_index Q n))" .
  moreover have "nat (last_index Q n) < n" using True last_index_bounds(2)[of Q n] by simp
  ultimately have "int (nat (last_index Q n)) \<le> last_index Q' n"
    using assms last_index_ge by blast
  then show ?thesis using True by simp
next
  case False
  then show ?thesis using last_index_bounds(1)[of Q' n] by simp
qed

lemma first_le_last_succ:
  assumes "\<And>j. j < n \<Longrightarrow> \<not> P j \<Longrightarrow> Q j"
  shows "first_index P n \<le> last_index Q n + 1"
proof (cases "first_index P n = 0")
  case True
  then show ?thesis using last_index_bounds(1)[of Q n] by simp
next
  case False
  define j where "j = nat (first_index P n - 1)"
  have j: "int j = first_index P n - 1" "j < n"
    using False first_index_bounds[of P n] by (auto simp: j_def)
  then have "\<not> P j" using first_index_before[of j P n] by simp
  then have "Q j" using assms j by simp
  from last_index_ge[where Q = Q, OF j(2) this] j(1) show ?thesis by simp
qed

lemma last_index_less: "last_index Q n < int n"
  using last_index_bounds(2)[of Q n] by simp

lemma level_sorted_file: "level_sorted fs \<Longrightarrow> i < length fs \<Longrightarrow> smallest (fs ! i) \<le> largest (fs ! i)"
  by (simp add: level_sorted_def)

lemma level_sorted_next:
  "level_sorted fs \<Longrightarrow> i < i' \<Longrightarrow> i' < length fs \<Longrightarrow> largest (fs ! i) < smallest (fs ! i')"
  using sorted_wrt_nth_less[of "\<lambda>a b. largest a < smallest b" fs i i']
  by (simp add: level_sorted_def)

lemma level_sorted_smallest_mono:
  "level_sorted fs \<Longrightarrow> i \<le> i' \<Longrightarrow> i' < length fs \<Longrightarrow> smallest (fs ! i) \<le> smallest (fs ! i')"
  using sorted_wrt_nth_less[OF level_sorted_smallest, of fs i i']
  by (cases "i = i'") auto

lemma level_sorted_largest_mono:
  "level_sorted fs \<Longrightarrow> i \<le> i' \<Longrightarrow> i' < length fs \<Longrightarrow> largest (fs ! i) \<le> largest (fs ! i')"
  using sorted_wrt_nth_less[OF level_sorted_largest, of fs i i']
  by (cases "i = i'") auto

lemma hint_of_bounds:
  assumes up: "level_sorted upper" and lo: "level_sorted lower" and i: "i < length upper"
  defines "h \<equiv> hint_of (upper ! i) lower"
  shows "0 \<le> smallest_lb h" and "smallest_lb h \<le> smallest_rb h + 1"
    and "smallest_rb h \<le> largest_rb h" and "0 \<le> largest_lb h"
    and "largest_lb h \<le> largest_rb h + 1" and "largest_lb h \<le> int (length lower)"
    and "largest_rb h \<le> int (length lower) - 1" and "smallest_rb h \<le> int (length lower) - 1"
    and "smallest_lb h \<le> largest_rb h + 1"
proof -
  note f = level_sorted_file[OF lo] and u = level_sorted_file[OF up i]
  show "0 \<le> smallest_lb h" "0 \<le> largest_lb h" "largest_lb h \<le> int (length lower)"
    "largest_rb h \<le> int (length lower) - 1" "smallest_rb h \<le> int (length lower) - 1"
    by (simp_all add: h_def hint_of_def first_index_bounds last_index_less)
  show a: "smallest_lb h \<le> smallest_rb h + 1"
    unfolding h_def hint_of_def using f
    by (simp, intro first_le_last_succ) (meson le_less_linear less_imp_le order_trans)
  show b: "smallest_rb h \<le> largest_rb h"
    unfolding h_def hint_of_def using u
    by (simp, intro last_index_mono) (meson order_trans)
  show "largest_lb h \<le> largest_rb h + 1"
    unfolding h_def hint_of_def using f
    by (simp, intro first_le_last_succ) (meson le_less_linear less_imp_le order_trans)
  from a b show "smallest_lb h \<le> largest_rb h + 1" by simp
qed

lemma hint_of_prev:
  assumes up: "level_sorted upper" and lo: "level_sorted lower"
    and i: "0 < i" "i < length upper"
  shows "largest_lb (hint_of (upper ! (i - 1)) lower) \<le> smallest_rb (hint_of (upper ! i) lower) + 1"
proof -
  note f = level_sorted_file[OF lo]
  have lt: "largest (upper ! (i - 1)) < smallest (upper ! i)"
    using level_sorted_next[OF up, of "i - 1" i] i by simp
  show ?thesis
    unfolding hint_of_def using f lt
    by (simp, intro first_le_last_succ) (meson le_less_linear less_imp_le order_trans)
qed

lemma hint_of_mono:
  assumes up: "level_sorted upper" and i: "i \<le> i'" "i' < length upper"
  shows "smallest_lb (hint_of (upper ! i) lower) \<le> smallest_lb (hint_of (upper ! i') lower)"
    and "largest_lb (hint_of (upper ! i) lower) \<le> largest_lb (hint_of (upper ! i') lower)"
    and "smallest_rb (hint_of (upper ! i) lower) \<le> smallest_rb (hint_of (upper ! i') lower)"
    and "largest_rb (hint_of (upper ! i) lower) \<le> largest_rb (hint_of (upper ! i') lower)"
proof -
  note s = level_sorted_smallest_mono[OF up i] and l = level_sorted_largest_mono[OF up i]
  show "smallest_lb (hint_of (upper ! i) lower) \<le> smallest_lb (hint_of (upper ! i') lower)"
    unfolding hint_of_def using s by (simp, intro first_index_antimono) (meson order_trans)
  show "largest_lb (hint_of (upper ! i) lower) \<le> largest_lb (hint_of (upper ! i') lower)"
    unfolding hint_of_def using l by (simp, intro first_index_antimono) (meson order_trans)
  show "smallest_rb (hint_of (upper ! i) lower) \<le> smallest_rb (hint_of (upper ! i') lower)"
    unfolding hint_of_def using s by (simp, intro last_index_mono) (meson order_trans)
  show "largest_rb (hint_of (upper ! i) lower) \<le> largest_rb (hint_of (upper ! i') lower)"
    unfolding hint_of_def using l by (simp, intro last_index_mono) (meson order_trans)
qed

lemma files_ok_small: "files_ok s files \<Longrightarrow> l < num_levels s \<Longrightarrow> length (files ! l) < 2 ^ 31"
  by (auto simp: files_ok_def list_all_length)

lemma files_sorted_level:
  "files_sorted files \<Longrightarrow> 1 \<le> l \<Longrightarrow> l < length files \<Longrightarrow> level_sorted (files ! l)"
proof -
  assume a: "files_sorted files" "1 \<le> l" "l < length files"
  then have "l - 1 < length (drop 1 files)" by simp
  with a(1) have "level_sorted (drop 1 files ! (l - 1))"
    unfolding files_sorted_def list_all_length by blast
  with a(2,3) show ?thesis by simp
qed

lemma UpdateIndex_built:
  assumes v: "valid_indexer s" and L: "1 \<le> num_levels s" and f: "files_ok s files"
  shows "\<exists>s'. UpdateIndex d (Some files) s = Inr s' \<and> valid_indexer s' \<and>
     num_levels s' = num_levels s \<and> ucmp s' = ucmp s \<and>
     (\<forall>u < num_levels s.
        level_rb s' ! u =
          (if 1 \<le> u \<or> num_levels s = 1 then int (length (files ! u)) - 1
           else level_rb s ! u) \<and>
        next_level_index s' ! u =
          (if 1 \<le> u \<and> u + 1 < num_levels s \<and> files ! u \<noteq> []
           then UpdateIndex_level d (ucmp s) (files ! u) (files ! (u + 1))
                  (length (files ! u)) (next_level_index s ! u)
           else next_level_index s ! u))"
proof -
  from UpdateIndex_loop_spec[OF v L f, of d 1]
  obtain s1 where s1: "UpdateIndex_loop d files 1 s = Inr s1"
    "num_levels s1 = num_levels s" "ucmp s1 = ucmp s"
    "length (next_level_index s1) = num_levels s" "length (level_rb s1) = num_levels s"
    and rest: "\<And>u. u < num_levels s \<Longrightarrow>
        level_rb s1 ! u =
          (if 1 \<le> u \<and> u + 1 < num_levels s then int (length (files ! u)) - 1
           else level_rb s ! u) \<and>
        next_level_index s1 ! u =
          (if 1 \<le> u \<and> u + 1 < num_levels s \<and> files ! u \<noteq> []
           then UpdateIndex_level d (ucmp s) (files ! u) (files ! (u + 1))
                  (length (files ! u)) (next_level_index s ! u)
           else next_level_index s ! u)"
    by blast
  let ?last = "num_levels s - 1"
  have sub: "uint32_sub (num_levels s1) 1 = ?last"
    unfolding s1(2) using v L by (intro uint32_sub_one) (auto simp: valid_indexer_def)
  have sub': "uint32_sub (num_levels s) (Suc 0) = ?last" using sub s1(2) by simp
  have lens: "length files = num_levels s" using f by (simp add: files_ok_def)
  have c: "int32_cast (int (length (files ! ?last)) - 1) = int (length (files ! ?last)) - 1"
    using files_ok_small[OF f, of ?last] L by (intro int32_cast_length_pred) simp
  let ?s' = "s1\<lparr>level_rb := (level_rb s1)[?last := int (length (files ! ?last)) - 1]\<rparr>"
  have r: "UpdateIndex d (Some files) s = Inr ?s'"
    using s1 L lens c by (simp add: UpdateIndex_def sub' Let_def)
  have "level_rb ?s' ! u =
          (if 1 \<le> u \<or> num_levels s = 1 then int (length (files ! u)) - 1
           else level_rb s ! u) \<and>
        next_level_index ?s' ! u =
          (if 1 \<le> u \<and> u + 1 < num_levels s \<and> files ! u \<noteq> []
           then UpdateIndex_level d (ucmp s) (files ! u) (files ! (u + 1))
                  (length (files ! u)) (next_level_index s ! u)
           else next_level_index s ! u)" if "u < num_levels s" for u
    using rest[OF that] that s1 L by (cases "u = ?last") (auto simp: nth_list_update)
  moreover have "valid_indexer ?s'" using v s1 by (simp add: valid_indexer_def)
  ultimately show ?thesis using r s1 by (intro exI[of _ ?s']) simp
qed

lemma UpdateIndex_built_sorted:
  assumes v: "valid_indexer s" and c: "comparator_ok (ucmp s)" and f: "files_ok s files"
    and srt: "files_sorted files" and L: "1 \<le> num_levels s"
  shows "\<exists>s'. UpdateIndex d (Some files) s = Inr s' \<and> valid_indexer s' \<and>
     num_levels s' = num_levels s \<and> ucmp s' = ucmp s \<and>
     (\<forall>u. 1 \<le> u \<longrightarrow> u < num_levels s \<longrightarrow> level_rb s' ! u = int (length (files ! u)) - 1) \<and>
     (\<forall>u. 1 \<le> u \<longrightarrow> u + 1 < num_levels s \<longrightarrow> files ! u \<noteq> [] \<longrightarrow>
        length (next_level_index s' ! u) = length (files ! u) \<and>
        (\<forall>i < length (files ! u).
           next_level_index s' ! u ! i = hint_of (files ! u ! i) (files ! (u + 1))))"
proof -
  from UpdateIndex_built[OF v L f, of d]
  obtain s' where s': "UpdateIndex d (Some files) s = Inr s'" "valid_indexer s'"
     "num_levels s' = num_levels s" "ucmp s' = ucmp s"
     and rest: "\<And>u. u < num_levels s \<Longrightarrow>
        level_rb s' ! u =
          (if 1 \<le> u \<or> num_levels s = 1 then int (length (files ! u)) - 1
           else level_rb s ! u) \<and>
        next_level_index s' ! u =
          (if 1 \<le> u \<and> u + 1 < num_levels s \<and> files ! u \<noteq> []
           then UpdateIndex_level d (ucmp s) (files ! u) (files ! (u + 1))
                  (length (files ! u)) (next_level_index s ! u)
           else next_level_index s ! u)"
    by blast
  have lens: "length files = num_levels s" using f by (simp add: files_ok_def)
  have "length (next_level_index s' ! u) = length (files ! u) \<and>
        (\<forall>i < length (files ! u).
           next_level_index s' ! u ! i = hint_of (files ! u ! i) (files ! (u + 1)))"
    if u: "1 \<le> u" "u + 1 < num_levels s" "files ! u \<noteq> []" for u
  proof -
    have eq: "next_level_index s' ! u = UpdateIndex_level d (ucmp s) (files ! u) (files ! (u + 1))
                  (length (files ! u)) (next_level_index s ! u)"
      using rest[of u] u by simp
    have so: "level_sorted (files ! u)" using files_sorted_level[OF srt, of u] u lens by simp
    have s1: "length (files ! u) < 2 ^ 31" "length (files ! (u + 1)) < 2 ^ 31"
      using files_ok_small[OF f] u by simp_all
    show ?thesis
      unfolding eq using UpdateIndex_level_spec[OF c so s1] by simp
  qed
  moreover have "level_rb s' ! u = int (length (files ! u)) - 1"
    if "1 \<le> u" "u < num_levels s" for u
    using rest[of u] that by simp
  ultimately show ?thesis using s' by (intro exI[of _ s']) simp
qed

lemma GetNextLevelIndex_built:
  assumes v: "valid_indexer s" and lv: "1 \<le> level" "level + 1 < num_levels s"
    and up: "level_sorted upper" and lo: "level_sorted lower"
    and small: "length upper < 2 ^ 31"
    and rb1: "level_rb s ! level = int (length upper) - 1"
    and rb2: "level_rb s ! (level + 1) = int (length lower) - 1"
    and len: "length (next_level_index s ! level) = length upper"
    and hints: "\<And>i. i < length upper \<Longrightarrow>
                  next_level_index s ! level ! i = hint_of (upper ! i) lower"
    and fi: "fi < length upper"
  shows "GetNextLevelIndex s level fi cs cl =
     Inr (if cs < 0 then
            (if fi > 0 then largest_lb (hint_of (upper ! (fi - 1)) lower) else 0,
             smallest_rb (hint_of (upper ! fi) lower))
          else if cs = 0 then
            (smallest_lb (hint_of (upper ! fi) lower), smallest_rb (hint_of (upper ! fi) lower))
          else if cl < 0 then
            (smallest_lb (hint_of (upper ! fi) lower), largest_rb (hint_of (upper ! fi) lower))
          else if cl = 0 then
            (largest_lb (hint_of (upper ! fi) lower), largest_rb (hint_of (upper ! fi) lower))
          else (largest_lb (hint_of (upper ! fi) lower), int (length lower) - 1))"
proof -
  let ?h = "hint_of (upper ! fi) lower"
  note b = hint_of_bounds[OF up lo fi]
  have sub: "uint32_sub (num_levels s) 1 = num_levels s - 1"
    using v lv by (intro uint32_sub_one) (auto simp: valid_indexer_def)
  have g1: "level > 0" "level \<noteq> uint32_sub (num_levels s) 1"
    "level < uint32_sub (num_levels s) 1"
    "\<not> (length (level_rb s) \<le> level + 1 \<or> length (next_level_index s) \<le> level)"
    using lv v unfolding sub by (auto simp: valid_indexer_def)
  have g2: "int32_cast (int fi) \<le> level_rb s ! level"
    using fi small rb1 by (subst int32_cast_id) auto
  have g3: "\<not> length (next_level_index s ! level) \<le> fi" using fi len by simp
  have cur: "next_level_index s ! level ! fi = ?h" using hints[OF fi] .
  have prev: "next_level_index s ! level ! (fi - 1) = hint_of (upper ! (fi - 1)) lower"
    using hints[of "fi - 1"] fi by simp
  have pb: "0 \<le> largest_lb (hint_of (upper ! (fi - 1)) lower)"
    using hint_of_bounds(4)[OF up lo, of "fi - 1"] fi by simp
  have pp: "largest_lb (hint_of (upper ! (fi - 1)) lower) \<le> smallest_rb ?h + 1" if "fi > 0"
    using hint_of_prev[OF up lo that fi] .
  have m1: "0 \<le> smallest_rb ?h + 1"
    using last_index_bounds(1)[of "\<lambda>j. smallest (lower ! j) \<le> smallest (upper ! fi)" "length lower"]
    by (simp add: hint_of_def)
  consider (a) "cs < 0" | (b) "cs = 0" | (c) "cs > 0" "cl < 0" | (d) "cs > 0" "cl = 0"
    | (e) "cs > 0" "cl > 0"
    by linarith
  then show ?thesis
  proof cases
    case a
    show ?thesis
    proof (cases "fi > 0")
      case True
      with a show ?thesis
        unfolding GetNextLevelIndex_def
        using g1 g2 g3 cur prev pb pp[OF True] \<open>smallest_rb ?h \<le> int (length lower) - 1\<close> rb2
        by (simp add: Let_def)
    next
      case False
      with a show ?thesis
        unfolding GetNextLevelIndex_def
        using g1 g2 g3 cur m1 \<open>smallest_rb ?h \<le> int (length lower) - 1\<close> rb2
        by (simp add: Let_def)
    qed
  next
    case b
    then show ?thesis
      unfolding GetNextLevelIndex_def
      using g1 g2 g3 cur \<open>0 \<le> smallest_lb ?h\<close> \<open>smallest_lb ?h \<le> smallest_rb ?h + 1\<close>
        \<open>smallest_rb ?h \<le> int (length lower) - 1\<close> rb2 by (simp add: Let_def)
  next
    case c
    then show ?thesis
      unfolding GetNextLevelIndex_def
      using g1 g2 g3 cur \<open>0 \<le> smallest_lb ?h\<close> \<open>smallest_lb ?h \<le> largest_rb ?h + 1\<close>
        \<open>largest_rb ?h \<le> int (length lower) - 1\<close> rb2 by (simp add: Let_def)
  next
    case d
    then show ?thesis
      unfolding GetNextLevelIndex_def
      using g1 g2 g3 cur \<open>0 \<le> largest_lb ?h\<close> \<open>largest_lb ?h \<le> largest_rb ?h + 1\<close>
        \<open>largest_rb ?h \<le> int (length lower) - 1\<close> rb2 by (simp add: Let_def)
  next
    case e
    then show ?thesis
      unfolding GetNextLevelIndex_def
      using g1 g2 g3 cur \<open>0 \<le> largest_lb ?h\<close> \<open>largest_lb ?h \<le> int (length lower)\<close> rb2
      by (simp add: Let_def)
  qed
qed

subsection \<open>The concrete scenario\<close>

lemmas eval_simps = UpdateIndex_def UpdateIndex_loop.simps UpdateIndex_level_def
  CalculateLB_def CalculateRB_def CalculateLB_merge.simps CalculateLB_rest.simps
  CalculateRB_merge.simps CalculateRB_rest.simps FileIndexer_def int_Compare_def File_def
  uint32_sub_def int32_cast_def vector_resize_def Let_def
  numeral_2_eq_2 numeral_3_eq_3

lemma int_Compare_ok: "comparator_ok int_Compare"
  by (auto simp: comparator_ok_def int_Compare_def)

lemma FileIndexer_valid: "n < 2 ^ 32 \<Longrightarrow> valid_indexer (FileIndexer n c)"
  by (simp add: valid_indexer_def FileIndexer_def)

lemma FileIndexer_fields [simp]:
  "num_levels (FileIndexer n c) = n" "ucmp (FileIndexer n c) = c"
  by (simp_all add: FileIndexer_def)

lemma scenario_files_ok: "files_ok (FileIndexer 3 int_Compare) scenario_files"
  by (simp add: files_ok_def scenario_files_def)

lemma scenario_files_sorted: "files_sorted scenario_files"
  by (simp add: files_sorted_def scenario_files_def level_sorted_def File_def)

lemma scenario_build:
  "UpdateIndex d (Some scenario_files) (FileIndexer 3 int_Compare) = Inr scenario_built"
  by (cases d) (simp add: eval_simps scenario_files_def scenario_built_def)

lemma gap_build: "UpdateIndex d (Some gap_files) (FileIndexer 3 int_Compare) = Inr gap_built"
  by (cases d) (simp add: eval_simps gap_files_def gap_built_def)

lemma skip_build: "UpdateIndex d (Some skip_files) (FileIndexer 3 int_Compare) = Inr skip_built"
  by (cases d) (simp add: eval_simps skip_files_def skip_built_def)

lemma emptied_build:
  "UpdateIndex d (Some emptied_files) scenario_built =
     Inr (scenario_built\<lparr>level_rb := [- 1, - 1, 0]\<rparr>)"
  by (simp add: eval_simps emptied_files_def scenario_built_def)

subsection \<open>The built structure\<close>

text \<open>
  What the claims below use of a build over sorted, non-overlapping file lists, for an
  indexed level \<open>u\<close>: the build returns a state whose bound cache holds the last file index
  of levels \<open>u\<close> and \<open>u + 1\<close>, and whose hint vector at level \<open>u\<close> holds the reference hints.
\<close>

lemma UpdateIndex_level_view:
  assumes v: "valid_indexer s" and c: "comparator_ok (ucmp s)" and f: "files_ok s files"
    and srt: "files_sorted files" and u: "1 \<le> u" "u + 1 < num_levels s"
  shows "\<exists>s'. UpdateIndex d (Some files) s = Inr s' \<and> valid_indexer s' \<and>
     num_levels s' = num_levels s \<and> ucmp s' = ucmp s \<and>
     level_sorted (files ! u) \<and> level_sorted (files ! (u + 1)) \<and>
     length (files ! u) < 2 ^ 31 \<and>
     level_rb s' ! u = int (length (files ! u)) - 1 \<and>
     level_rb s' ! (u + 1) = int (length (files ! (u + 1))) - 1 \<and>
     (files ! u \<noteq> [] \<longrightarrow>
        length (next_level_index s' ! u) = length (files ! u) \<and>
        (\<forall>i < length (files ! u).
           next_level_index s' ! u ! i = hint_of (files ! u ! i) (files ! (u + 1))))"
proof -
  have L: "1 \<le> num_levels s" using u by simp
  have lens: "length files = num_levels s" using f by (simp add: files_ok_def)
  from UpdateIndex_built_sorted[OF v c f srt L, of d]
  obtain s' where s': "UpdateIndex d (Some files) s = Inr s'" "valid_indexer s'"
      "num_levels s' = num_levels s" "ucmp s' = ucmp s"
    and rb: "\<And>u. 1 \<le> u \<Longrightarrow> u < num_levels s \<Longrightarrow> level_rb s' ! u = int (length (files ! u)) - 1"
    and h: "\<And>u. 1 \<le> u \<Longrightarrow> u + 1 < num_levels s \<Longrightarrow> files ! u \<noteq> [] \<Longrightarrow>
        length (next_level_index s' ! u) = length (files ! u) \<and>
        (\<forall>i < length (files ! u).
           next_level_index s' ! u ! i = hint_of (files ! u ! i) (files ! (u + 1)))"
    by blast
  have "level_sorted (files ! u)" "level_sorted (files ! (u + 1))"
    using files_sorted_level[OF srt] u lens by simp_all
  moreover have "length (files ! u) < 2 ^ 31" using files_ok_small[OF f, of u] u by simp
  moreover have "level_rb s' ! u = int (length (files ! u)) - 1"
    "level_rb s' ! (u + 1) = int (length (files ! (u + 1))) - 1"
    using rb[of u] rb[of "u + 1"] u by simp_all
  ultimately show ?thesis using s' h[OF u] by (intro exI[of _ s']) simp
qed

subsection \<open>Further facts about the operations\<close>

lemma ClearIndex_loop_spec:
  "length (next_level_index s) = num_levels s \<Longrightarrow>
   ClearIndex_loop level s =
     Inr (s\<lparr>next_level_index :=
            map (\<lambda>l. if level \<le> l then [] else next_level_index s ! l) [0..<num_levels s]\<rparr>)"
proof (induction level s rule: ClearIndex_loop.induct)
  case (1 level s)
  show ?case
  proof (cases "level < num_levels s")
    case False
    have "map (\<lambda>l. if level \<le> l then [] else next_level_index s ! l) [0..<num_levels s]
            = next_level_index s"
      using False "1.prems" by (intro nth_equalityI) auto
    with False show ?thesis by (subst ClearIndex_loop.simps) simp
  next
    case True
    let ?s1 = "s\<lparr>next_level_index := (next_level_index s)[level := []]\<rparr>"
    have inb: "\<not> length (next_level_index s) \<le> level" using True "1.prems" by simp
    have step: "ClearIndex_loop level s = ClearIndex_loop (level + 1) ?s1"
      using True inb by (subst ClearIndex_loop.simps) simp
    have "map (\<lambda>l. if level + 1 \<le> l then [] else next_level_index ?s1 ! l) [0..<num_levels ?s1]
          = map (\<lambda>l. if level \<le> l then [] else next_level_index s ! l) [0..<num_levels s]"
      using True "1.prems" by (intro nth_equalityI) (auto simp: nth_list_update)
    then show ?thesis
      unfolding step using "1.IH"[OF True inb] "1.prems" by simp
  qed
qed



section \<open>Properties\<close>

text \<open>
  C1 as stated fails. With level 1 = [10,20], [30,40] and level 2 = [1,5], [25,27], the
  call for the level-1 file [30,40] (index 1) and the target key 3, which precedes that
  file, returns the range (1, 1), although the level-2 file [1,5] at index 0 contains 3.
\<close>

theorem GetNextLevelIndex_sound_counterexample:
  "files_sorted skip_files \<and>
   UpdateIndex unit0 (Some skip_files) (FileIndexer 3 int_Compare) = Inr skip_built \<and>
   GetNextLevelIndex skip_built 1 1
     (sgn (int_Compare 3 (smallest (skip_files ! 1 ! 1))))
     (sgn (int_Compare 3 (largest (skip_files ! 1 ! 1)))) = Inr (1, 1) \<and>
   smallest (skip_files ! 2 ! 0) \<le> 3 \<and> 3 \<le> largest (skip_files ! 2 ! 0) \<and>
   \<not> ((1 :: int) \<le> int 0 \<and> int 0 \<le> 1)"
  by (simp add: skip_build)
     (simp add: skip_files_def skip_built_def files_sorted_def level_sorted_def File_def
        GetNextLevelIndex_def uint32_sub_def int32_cast_def int_Compare_def)

text \<open>
  C1 (as amended). After a build over sorted, non-overlapping file lists, for an indexed
  level \<open>u\<close>, a file \<open>i\<close> of it and a target key \<open>k\<close> that is not below the largest key
  of file \<open>i - 1\<close> when \<open>i > 0\<close> (as it is when file \<open>i\<close> is where the search for \<open>k\<close>
  lands), the range \<open>GetNextLevelIndex\<close> returns for the comparison signs of \<open>k\<close> against
  file \<open>i\<close> contains every index \<open>j\<close> of level \<open>u + 1\<close> whose file range contains \<open>k\<close>.
\<close>

theorem GetNextLevelIndex_sound:
  assumes "valid_indexer s" and "comparator_ok (ucmp s)" and "files_ok s files"
    and "files_sorted files" and "1 \<le> u" and "u + 1 < num_levels s"
    and "i < length (files ! u)"
    and "i = 0 \<or> largest (files ! u ! (i - 1)) \<le> k"
    and "j < length (files ! (u + 1))"
    and "smallest (files ! (u + 1) ! j) \<le> k" and "k \<le> largest (files ! (u + 1) ! j)"
  shows "\<exists>s' left_bound right_bound.
     UpdateIndex d (Some files) s = Inr s' \<and>
     GetNextLevelIndex s' u i
       (sgn (ucmp s k (smallest (files ! u ! i))))
       (sgn (ucmp s k (largest (files ! u ! i)))) = Inr (left_bound, right_bound) \<and>
     left_bound \<le> int j \<and> int j \<le> right_bound"
proof -
  let ?up = "files ! u" and ?lo = "files ! (u + 1)"
  let ?cs = "sgn (ucmp s k (smallest (?up ! i)))" and ?cl = "sgn (ucmp s k (largest (?up ! i)))"
  note fi = assms(7) and j = assms(9) and jl = assms(10) and jr = assms(11)
  from fi have ne: "?up \<noteq> []" by auto
  from UpdateIndex_level_view[OF assms(1-6), of d] ne
  obtain s' where s': "UpdateIndex d (Some files) s = Inr s'" "valid_indexer s'"
      "num_levels s' = num_levels s"
    and so: "level_sorted ?up" "level_sorted ?lo" and sm: "length ?up < 2 ^ 31"
    and rb: "level_rb s' ! u = int (length ?up) - 1"
      "level_rb s' ! (u + 1) = int (length ?lo) - 1"
    and len: "length (next_level_index s' ! u) = length ?up"
    and h: "\<And>i. i < length ?up \<Longrightarrow> next_level_index s' ! u ! i = hint_of (?up ! i) ?lo"
    by blast
  have lv: "u + 1 < num_levels s'" using assms(6) s'(3) by simp
  note r = GetNextLevelIndex_built[OF s'(2) assms(5) lv so sm rb len h fi, of ?cs ?cl]
  have c: "(ucmp s a b < 0) = (a < b)" "(ucmp s a b = 0) = (a = b)" for a b
    using assms(2) by (auto simp: comparator_ok_def)
  have cs: "(?cs < 0) = (k < smallest (?up ! i))" "(?cs = 0) = (k = smallest (?up ! i))"
    and cl: "(?cl < 0) = (k < largest (?up ! i))" "(?cl = 0) = (k = largest (?up ! i))"
    by (simp_all add: c sgn_eq_0_iff)
  let ?h = "hint_of (?up ! i) ?lo"
  have le_rb_s: "int j \<le> smallest_rb ?h" if "k \<le> smallest (?up ! i)"
  proof -
    have "int j \<le> last_index (\<lambda>j. smallest (?lo ! j) \<le> smallest (?up ! i)) (length ?lo)"
      by (rule last_index_ge[OF j]) (use that jl in simp)
    then show ?thesis by (simp add: hint_of_def)
  qed
  have le_rb_l: "int j \<le> largest_rb ?h" if "k \<le> largest (?up ! i)"
  proof -
    have "int j \<le> last_index (\<lambda>j. smallest (?lo ! j) \<le> largest (?up ! i)) (length ?lo)"
      by (rule last_index_ge[OF j]) (use that jl in simp)
    then show ?thesis by (simp add: hint_of_def)
  qed
  have ge_lb_s: "smallest_lb ?h \<le> int j" if "smallest (?up ! i) \<le> k"
  proof -
    have "first_index (\<lambda>j. smallest (?up ! i) \<le> largest (?lo ! j)) (length ?lo) \<le> int j"
      by (rule first_index_le[OF j]) (use that jr in simp)
    then show ?thesis by (simp add: hint_of_def)
  qed
  have ge_lb_l: "largest_lb ?h \<le> int j" if "largest (?up ! i) \<le> k"
  proof -
    have "first_index (\<lambda>j. largest (?up ! i) \<le> largest (?lo ! j)) (length ?lo) \<le> int j"
      by (rule first_index_le[OF j]) (use that jr in simp)
    then show ?thesis by (simp add: hint_of_def)
  qed
  have ge_prev: "largest_lb (hint_of (?up ! (i - 1)) ?lo) \<le> int j" if "i > 0"
  proof -
    from that assms(8) have "largest (?up ! (i - 1)) \<le> k" by simp
    then have "first_index (\<lambda>j. largest (?up ! (i - 1)) \<le> largest (?lo ! j)) (length ?lo)
                 \<le> int j"
      by (intro first_index_le[OF j]) (use jr in simp)
    then show ?thesis by (simp add: hint_of_def)
  qed
  have top: "int j \<le> int (length ?lo) - 1" using j by simp
  consider (a) "k < smallest (?up ! i)" | (b) "k = smallest (?up ! i)"
    | (c) "smallest (?up ! i) < k" "k < largest (?up ! i)"
    | (d) "smallest (?up ! i) < k" "k = largest (?up ! i)"
    | (e) "smallest (?up ! i) < k" "largest (?up ! i) < k"
    by (meson not_less_iff_gr_or_eq)
  then show ?thesis
  proof cases
    case a
    have sg: "?cs < 0" unfolding cs(1) by (rule a)
    have lr: "int j \<le> smallest_rb ?h" using le_rb_s a by simp
    show ?thesis
    proof (cases "i > 0")
      case True
      have r': "GetNextLevelIndex s' u i ?cs ?cl =
          Inr (largest_lb (hint_of (?up ! (i - 1)) ?lo), smallest_rb ?h)"
        using r sg True by simp
      show ?thesis
        by (intro exI[of _ s'] exI[of _ "largest_lb (hint_of (?up ! (i - 1)) ?lo)"]
              exI[of _ "smallest_rb ?h"] conjI s'(1) r' ge_prev[OF True] lr)
    next
      case False
      have r': "GetNextLevelIndex s' u i ?cs ?cl = Inr (0, smallest_rb ?h)"
        using r sg False by simp
      show ?thesis
        by (intro exI[of _ s'] exI[of _ 0] exI[of _ "smallest_rb ?h"] conjI s'(1) r' lr) simp
    qed
  next
    case b
    have sg: "\<not> ?cs < 0" "?cs = 0" unfolding cs using b by simp_all
    have r': "GetNextLevelIndex s' u i ?cs ?cl = Inr (smallest_lb ?h, smallest_rb ?h)"
      using r sg by simp
    show ?thesis
      using le_rb_s ge_lb_s b
      by (intro exI[of _ s'] exI[of _ "smallest_lb ?h"] exI[of _ "smallest_rb ?h"]
            conjI s'(1) r') simp_all
  next
    case c
    have sg: "\<not> ?cs < 0" "?cs \<noteq> 0" "?cl < 0" unfolding cs cl using c by simp_all
    have r': "GetNextLevelIndex s' u i ?cs ?cl = Inr (smallest_lb ?h, largest_rb ?h)"
      using r sg by simp
    show ?thesis
      using le_rb_l ge_lb_s c
      by (intro exI[of _ s'] exI[of _ "smallest_lb ?h"] exI[of _ "largest_rb ?h"]
            conjI s'(1) r') simp_all
  next
    case d
    have sg: "\<not> ?cs < 0" "?cs \<noteq> 0" "\<not> ?cl < 0" "?cl = 0" unfolding cs cl using d by simp_all
    have r': "GetNextLevelIndex s' u i ?cs ?cl = Inr (largest_lb ?h, largest_rb ?h)"
      using r sg by simp
    show ?thesis
      using le_rb_l ge_lb_l d
      by (intro exI[of _ s'] exI[of _ "largest_lb ?h"] exI[of _ "largest_rb ?h"]
            conjI s'(1) r') simp_all
  next
    case e
    have sg: "\<not> ?cs < 0" "?cs \<noteq> 0" "\<not> ?cl < 0" "?cl \<noteq> 0" unfolding cs cl using e by simp_all
    have r': "GetNextLevelIndex s' u i ?cs ?cl = Inr (largest_lb ?h, int (length ?lo) - 1)"
      using r sg by simp
    show ?thesis
      using ge_lb_l top e
      by (intro exI[of _ s'] exI[of _ "largest_lb ?h"] exI[of _ "int (length ?lo) - 1"]
            conjI s'(1) r') simp_all
  qed
qed

theorem GetNextLevelIndex_sound_witness:
  "valid_indexer (FileIndexer 3 int_Compare) \<and>
   comparator_ok (ucmp (FileIndexer 3 int_Compare)) \<and>
   files_ok (FileIndexer 3 int_Compare) scenario_files \<and>
   files_sorted scenario_files \<and> (1::nat) \<le> 1 \<and>
   1 + 1 < num_levels (FileIndexer 3 int_Compare) \<and> 1 < length (scenario_files ! 1) \<and>
   ((1::nat) = 0 \<or> largest (scenario_files ! 1 ! (1 - 1)) \<le> 40) \<and>
   2 < length (scenario_files ! (1 + 1)) \<and>
   smallest (scenario_files ! (1 + 1) ! 2) \<le> 40 \<and>
   40 \<le> largest (scenario_files ! (1 + 1) ! 2) \<and>
   (\<exists>s' left_bound right_bound.
     UpdateIndex unit0 (Some scenario_files) (FileIndexer 3 int_Compare) = Inr s' \<and>
     GetNextLevelIndex s' 1 1
       (sgn (ucmp (FileIndexer 3 int_Compare) 40 (smallest (scenario_files ! 1 ! 1))))
       (sgn (ucmp (FileIndexer 3 int_Compare) 40 (largest (scenario_files ! 1 ! 1))))
       = Inr (left_bound, right_bound) \<and>
     left_bound \<le> int 2 \<and> int 2 \<le> right_bound)"
proof -
  have h1: "valid_indexer (FileIndexer 3 int_Compare)" by (simp add: FileIndexer_valid)
  have h2: "comparator_ok (ucmp (FileIndexer 3 int_Compare))" by (simp add: int_Compare_ok)
  note h3 = scenario_files_ok and h4 = scenario_files_sorted
  have h5: "(1::nat) \<le> 1" by simp
  have h6: "1 + 1 < num_levels (FileIndexer 3 int_Compare)" by simp
  have h7: "1 < length (scenario_files ! 1)" by (simp add: scenario_files_def)
  have h8: "(1::nat) = 0 \<or> largest (scenario_files ! 1 ! (1 - 1)) \<le> 40"
    by (simp add: scenario_files_def File_def)
  have h9: "2 < length (scenario_files ! (1 + 1))" by (simp add: scenario_files_def)
  have h10: "smallest (scenario_files ! (1 + 1) ! 2) \<le> 40"
    by (simp add: scenario_files_def File_def)
  have h11: "40 \<le> largest (scenario_files ! (1 + 1) ! 2)"
    by (simp add: scenario_files_def File_def)
  show ?thesis
    by (intro conjI h1 h2 h3 h4 h5 h6 h7 h8 h9 h10 h11
          GetNextLevelIndex_sound[OF h1 h2 h3 h4 h5 h6 h7 h8 h9 h10 h11])
qed

text \<open>
  C2. After a build over sorted, non-overlapping file lists, the four hint fields of file
  \<open>i\<close> of an indexed level \<open>u\<close> are the reference values: \<open>smallest_lb\<close> (\<open>largest_lb\<close>) is
  the smallest index \<open>j\<close> of level \<open>u + 1\<close> whose largest key is at least the file's
  smallest (largest) key, or the file count of level \<open>u + 1\<close>; \<open>smallest_rb\<close>
  (\<open>largest_rb\<close>) is the largest index \<open>j\<close> whose smallest key is at most the file's
  smallest (largest) key, or \<open>-1\<close>.
\<close>

theorem UpdateIndex_hint_reference:
  assumes "valid_indexer s" and "comparator_ok (ucmp s)" and "files_ok s files"
    and "files_sorted files" and "1 \<le> u" and "u + 1 < num_levels s"
    and "i < length (files ! u)"
  shows "\<exists>s'. UpdateIndex d (Some files) s = Inr s' \<and>
     smallest_lb (next_level_index s' ! u ! i) =
       first_index (\<lambda>j. smallest (files ! u ! i) \<le> largest (files ! (u + 1) ! j))
         (length (files ! (u + 1))) \<and>
     largest_lb (next_level_index s' ! u ! i) =
       first_index (\<lambda>j. largest (files ! u ! i) \<le> largest (files ! (u + 1) ! j))
         (length (files ! (u + 1))) \<and>
     smallest_rb (next_level_index s' ! u ! i) =
       last_index (\<lambda>j. smallest (files ! (u + 1) ! j) \<le> smallest (files ! u ! i))
         (length (files ! (u + 1))) \<and>
     largest_rb (next_level_index s' ! u ! i) =
       last_index (\<lambda>j. smallest (files ! (u + 1) ! j) \<le> largest (files ! u ! i))
         (length (files ! (u + 1)))"
proof -
  have L: "1 \<le> num_levels s" using assms(6) by simp
  from UpdateIndex_built_sorted[OF assms(1,2,3,4) L, of d]
  obtain s' where s': "UpdateIndex d (Some files) s = Inr s'"
    and h: "\<And>u. 1 \<le> u \<Longrightarrow> u + 1 < num_levels s \<Longrightarrow> files ! u \<noteq> [] \<Longrightarrow>
        (\<forall>i < length (files ! u).
           next_level_index s' ! u ! i = hint_of (files ! u ! i) (files ! (u + 1)))"
    by blast
  have "files ! u \<noteq> []" using assms(7) by auto
  from h[OF assms(5,6) this] assms(7)
  have "next_level_index s' ! u ! i = hint_of (files ! u ! i) (files ! (u + 1))" by blast
  with s' show ?thesis by (simp add: hint_of_def)
qed

theorem UpdateIndex_hint_reference_witness:
  "valid_indexer (FileIndexer 3 int_Compare) \<and>
   comparator_ok (ucmp (FileIndexer 3 int_Compare)) \<and>
   files_ok (FileIndexer 3 int_Compare) scenario_files \<and>
   files_sorted scenario_files \<and> (1::nat) \<le> 1 \<and>
   1 + 1 < num_levels (FileIndexer 3 int_Compare) \<and> 1 < length (scenario_files ! 1) \<and>
   (\<exists>s'. UpdateIndex unit0 (Some scenario_files) (FileIndexer 3 int_Compare) = Inr s' \<and>
     smallest_lb (next_level_index s' ! 1 ! 1) =
       first_index (\<lambda>j. smallest (scenario_files ! 1 ! 1) \<le> largest (scenario_files ! (1 + 1) ! j))
         (length (scenario_files ! (1 + 1))) \<and>
     largest_lb (next_level_index s' ! 1 ! 1) =
       first_index (\<lambda>j. largest (scenario_files ! 1 ! 1) \<le> largest (scenario_files ! (1 + 1) ! j))
         (length (scenario_files ! (1 + 1))) \<and>
     smallest_rb (next_level_index s' ! 1 ! 1) =
       last_index (\<lambda>j. smallest (scenario_files ! (1 + 1) ! j) \<le> smallest (scenario_files ! 1 ! 1))
         (length (scenario_files ! (1 + 1))) \<and>
     largest_rb (next_level_index s' ! 1 ! 1) =
       last_index (\<lambda>j. smallest (scenario_files ! (1 + 1) ! j) \<le> largest (scenario_files ! 1 ! 1))
         (length (scenario_files ! (1 + 1))))"
proof -
  have h1: "valid_indexer (FileIndexer 3 int_Compare)" by (simp add: FileIndexer_valid)
  have h2: "comparator_ok (ucmp (FileIndexer 3 int_Compare))" by (simp add: int_Compare_ok)
  note h3 = scenario_files_ok and h4 = scenario_files_sorted
  have h5: "(1::nat) \<le> 1" by simp
  have h6: "1 + 1 < num_levels (FileIndexer 3 int_Compare)" by simp
  have h7: "1 < length (scenario_files ! 1)" by (simp add: scenario_files_def)
  show ?thesis
    by (intro conjI h1 h2 h3 h4 h5 h6 h7 UpdateIndex_hint_reference[OF h1 h2 h3 h4 h5 h6 h7])
qed

text \<open>
  C3 as stated fails in its third inequality. With level 1 = [10,20] and level 2 = [1,5],
  the level-1 file lies above every level-2 file, so its \<open>largest_lb\<close> is the file count
  of level 2, which is 1, while \<open>level_rb[2]\<close> is 0.
\<close>

theorem UpdateIndex_hint_invariants_counterexample:
  "files_sorted gap_files \<and>
   UpdateIndex unit0 (Some gap_files) (FileIndexer 3 int_Compare) = Inr gap_built \<and>
   \<not> largest_lb (next_level_index gap_built ! 1 ! 0) \<le> level_rb gap_built ! (1 + 1)"
  by (simp add: gap_build)
     (simp add: gap_files_def gap_built_def files_sorted_def level_sorted_def File_def)

text \<open>
  C3 (as amended). After a build over sorted, non-overlapping file lists, the hint record
  of every file \<open>i\<close> of an indexed level \<open>u\<close> satisfies \<open>0 \<le> smallest_lb \<le> smallest_rb + 1\<close>,
  \<open>smallest_rb \<le> largest_rb\<close> and \<open>largest_lb \<le> level_rb[u + 1] + 1\<close> (the file count of
  level \<open>u + 1\<close>), and each of the four fields is non-decreasing in the file index.
\<close>

theorem UpdateIndex_hint_invariants:
  assumes "valid_indexer s" and "comparator_ok (ucmp s)" and "files_ok s files"
    and "files_sorted files" and "1 \<le> u" and "u + 1 < num_levels s"
    and "i \<le> i'" and "i' < length (files ! u)"
  shows "\<exists>s'. UpdateIndex d (Some files) s = Inr s' \<and>
     0 \<le> smallest_lb (next_level_index s' ! u ! i) \<and>
     smallest_lb (next_level_index s' ! u ! i) \<le> smallest_rb (next_level_index s' ! u ! i) + 1 \<and>
     smallest_rb (next_level_index s' ! u ! i) \<le> largest_rb (next_level_index s' ! u ! i) \<and>
     largest_lb (next_level_index s' ! u ! i) \<le> level_rb s' ! (u + 1) + 1 \<and>
     smallest_lb (next_level_index s' ! u ! i) \<le> smallest_lb (next_level_index s' ! u ! i') \<and>
     smallest_rb (next_level_index s' ! u ! i) \<le> smallest_rb (next_level_index s' ! u ! i') \<and>
     largest_lb (next_level_index s' ! u ! i) \<le> largest_lb (next_level_index s' ! u ! i') \<and>
     largest_rb (next_level_index s' ! u ! i) \<le> largest_rb (next_level_index s' ! u ! i')"
proof -
  let ?up = "files ! u" and ?lo = "files ! (u + 1)"
  have ne: "?up \<noteq> []" and i: "i < length ?up" using assms(7,8) by auto
  from UpdateIndex_level_view[OF assms(1-6), of d] ne
  obtain s' where s': "UpdateIndex d (Some files) s = Inr s'"
    and so: "level_sorted ?up" "level_sorted ?lo"
    and rb: "level_rb s' ! (u + 1) = int (length ?lo) - 1"
    and h: "\<And>i. i < length ?up \<Longrightarrow> next_level_index s' ! u ! i = hint_of (?up ! i) ?lo"
    by blast
  note b = hint_of_bounds[OF so i] and m = hint_of_mono[OF so(1) assms(7,8), of ?lo]
  show ?thesis
    using s' b(1,2,3,6) m rb
    by (intro exI[of _ s']) (simp add: h[OF i] h[OF assms(8)])
qed

theorem UpdateIndex_hint_invariants_witness:
  "valid_indexer (FileIndexer 3 int_Compare) \<and>
   comparator_ok (ucmp (FileIndexer 3 int_Compare)) \<and>
   files_ok (FileIndexer 3 int_Compare) scenario_files \<and>
   files_sorted scenario_files \<and> (1::nat) \<le> 1 \<and>
   1 + 1 < num_levels (FileIndexer 3 int_Compare) \<and>
   (0::nat) \<le> 1 \<and> 1 < length (scenario_files ! 1) \<and>
   (\<exists>s'. UpdateIndex unit0 (Some scenario_files) (FileIndexer 3 int_Compare) = Inr s' \<and>
     0 \<le> smallest_lb (next_level_index s' ! 1 ! 0) \<and>
     smallest_lb (next_level_index s' ! 1 ! 0) \<le> smallest_rb (next_level_index s' ! 1 ! 0) + 1 \<and>
     smallest_rb (next_level_index s' ! 1 ! 0) \<le> largest_rb (next_level_index s' ! 1 ! 0) \<and>
     largest_lb (next_level_index s' ! 1 ! 0) \<le> level_rb s' ! (1 + 1) + 1 \<and>
     smallest_lb (next_level_index s' ! 1 ! 0) \<le> smallest_lb (next_level_index s' ! 1 ! 1) \<and>
     smallest_rb (next_level_index s' ! 1 ! 0) \<le> smallest_rb (next_level_index s' ! 1 ! 1) \<and>
     largest_lb (next_level_index s' ! 1 ! 0) \<le> largest_lb (next_level_index s' ! 1 ! 1) \<and>
     largest_rb (next_level_index s' ! 1 ! 0) \<le> largest_rb (next_level_index s' ! 1 ! 1))"
proof -
  have h1: "valid_indexer (FileIndexer 3 int_Compare)" by (simp add: FileIndexer_valid)
  have h2: "comparator_ok (ucmp (FileIndexer 3 int_Compare))" by (simp add: int_Compare_ok)
  note h3 = scenario_files_ok and h4 = scenario_files_sorted
  have h5: "(1::nat) \<le> 1" by simp
  have h6: "1 + 1 < num_levels (FileIndexer 3 int_Compare)" by simp
  have h7: "(0::nat) \<le> 1" by simp
  have h8: "1 < length (scenario_files ! 1)" by (simp add: scenario_files_def)
  show ?thesis
    by (intro conjI h1 h2 h3 h4 h5 h6 h7 h8
          UpdateIndex_hint_invariants[OF h1 h2 h3 h4 h5 h6 h7 h8])
qed

text \<open>
  C4. On a structure built from sorted, non-overlapping file lists, every call of
  \<open>GetNextLevelIndex\<close> with \<open>level \<ge> 1\<close> and \<open>file_index \<le> level_rb[level]\<close> returns bounds
  (no assertion fires), and they satisfy \<open>0 \<le> left_bound\<close>, \<open>left_bound \<le> right_bound + 1\<close>
  and \<open>right_bound \<le> level_rb[level + 1]\<close>; at the last level, which has no next level,
  the bounds are \<open>(0, -1)\<close>.
\<close>

theorem GetNextLevelIndex_postconditions:
  assumes "valid_indexer s" and "comparator_ok (ucmp s)" and "files_ok s files"
    and "files_sorted files" and "1 \<le> level" and "level < num_levels s"
    and "file_index < length (files ! level) \<or> level + 1 = num_levels s"
  shows "\<exists>s' left_bound right_bound.
     UpdateIndex d (Some files) s = Inr s' \<and>
     GetNextLevelIndex s' level file_index cmp_smallest cmp_largest
       = Inr (left_bound, right_bound) \<and>
     0 \<le> left_bound \<and> left_bound \<le> right_bound + 1 \<and>
     right_bound \<le> (if level + 1 < num_levels s then level_rb s' ! (level + 1) else - 1)"
proof (cases "level + 1 < num_levels s")
  case True
  let ?up = "files ! level" and ?lo = "files ! (level + 1)"
  have fi: "file_index < length ?up" using assms(7) True by auto
  then have ne: "?up \<noteq> []" by auto
  from UpdateIndex_level_view[OF assms(1-5) True, of d] ne
  obtain s' where s': "UpdateIndex d (Some files) s = Inr s'" "valid_indexer s'"
      "num_levels s' = num_levels s"
    and so: "level_sorted ?up" "level_sorted ?lo" and sm: "length ?up < 2 ^ 31"
    and rb: "level_rb s' ! level = int (length ?up) - 1"
      "level_rb s' ! (level + 1) = int (length ?lo) - 1"
    and len: "length (next_level_index s' ! level) = length ?up"
    and h: "\<And>i. i < length ?up \<Longrightarrow> next_level_index s' ! level ! i = hint_of (?up ! i) ?lo"
    by blast
  have lv: "level + 1 < num_levels s'" using True s'(3) by simp
  note r = GetNextLevelIndex_built[OF s'(2) assms(5) lv so sm rb len h fi,
      of cmp_smallest cmp_largest]
  note b = hint_of_bounds[OF so fi]
  have pb: "0 \<le> largest_lb (hint_of (?up ! (file_index - 1)) ?lo)"
    using hint_of_bounds(4)[OF so, of "file_index - 1"] fi by simp
  have pp: "largest_lb (hint_of (?up ! (file_index - 1)) ?lo)
              \<le> smallest_rb (hint_of (?up ! file_index) ?lo) + 1" if "file_index > 0"
    using hint_of_prev[OF so that fi] .
  have m1: "0 \<le> smallest_rb (hint_of (?up ! file_index) ?lo) + 1"
    using last_index_bounds(1)[of "\<lambda>j. smallest (?lo ! j) \<le> smallest (?up ! file_index)"
        "length ?lo"]
    by (simp add: hint_of_def)
  show ?thesis
    using s'(1) True r rb(2) b pb pp m1
    by (intro exI[of _ s']) (auto split: if_splits)
next
  case False
  with assms(6) have last: "level + 1 = num_levels s" by simp
  have L: "1 \<le> num_levels s" using assms(6) by simp
  from UpdateIndex_built[OF assms(1) L assms(3), of d]
  obtain s' where s': "UpdateIndex d (Some files) s = Inr s'" "valid_indexer s'"
      "num_levels s' = num_levels s"
    by blast
  have sub: "uint32_sub (num_levels s') 1 = level"
    using s' last uint32_sub_one[of "num_levels s'"] by (simp add: valid_indexer_def)
  have "GetNextLevelIndex s' level file_index cmp_smallest cmp_largest = Inr (0, - 1)"
    using assms(5) sub by (simp add: GetNextLevelIndex_def del: One_nat_def)
  with s'(1) False show ?thesis by (intro exI[of _ s']) simp
qed

theorem GetNextLevelIndex_postconditions_witness:
  "valid_indexer (FileIndexer 3 int_Compare) \<and>
   comparator_ok (ucmp (FileIndexer 3 int_Compare)) \<and>
   files_ok (FileIndexer 3 int_Compare) scenario_files \<and>
   files_sorted scenario_files \<and> (1::nat) \<le> 1 \<and>
   1 < num_levels (FileIndexer 3 int_Compare) \<and>
   (0 < length (scenario_files ! 1) \<or> 1 + 1 = num_levels (FileIndexer 3 int_Compare)) \<and>
   (\<exists>s' left_bound right_bound.
     UpdateIndex unit0 (Some scenario_files) (FileIndexer 3 int_Compare) = Inr s' \<and>
     GetNextLevelIndex s' 1 0 0 (- 1) = Inr (left_bound, right_bound) \<and>
     0 \<le> left_bound \<and> left_bound \<le> right_bound + 1 \<and>
     right_bound \<le> (if 1 + 1 < num_levels (FileIndexer 3 int_Compare)
                      then level_rb s' ! (1 + 1) else - 1))"
proof -
  have h1: "valid_indexer (FileIndexer 3 int_Compare)" by (simp add: FileIndexer_valid)
  have h2: "comparator_ok (ucmp (FileIndexer 3 int_Compare))" by (simp add: int_Compare_ok)
  note h3 = scenario_files_ok and h4 = scenario_files_sorted
  have h5: "(1::nat) \<le> 1" by simp
  have h6: "1 < num_levels (FileIndexer 3 int_Compare)" by simp
  have h7: "0 < length (scenario_files ! 1) \<or> 1 + 1 = num_levels (FileIndexer 3 int_Compare)"
    by (simp add: scenario_files_def)
  show ?thesis
    by (intro conjI h1 h2 h3 h4 h5 h6 h7
          GetNextLevelIndex_postconditions[OF h1 h2 h3 h4 h5 h6 h7])
qed

text \<open>
  C5 as stated fails in its first half. In the scenario, the call for the level-1 file
  [10,20] with the target key 10 returns the range (0, 0): the lower index 1 ([18,25]) is
  not in it.
\<close>

theorem scenario_resolve_counterexample:
  "UpdateIndex unit0 (Some scenario_files) (FileIndexer 3 int_Compare) = Inr scenario_built \<and>
   GetNextLevelIndex scenario_built 1 0
     (sgn (int_Compare 10 (smallest (scenario_files ! 1 ! 0))))
     (sgn (int_Compare 10 (largest (scenario_files ! 1 ! 0)))) = Inr (0, 0) \<and>
   \<not> ((0 :: int) \<le> 1 \<and> (1 :: int) \<le> 0)"
  by (simp add: scenario_build)
     (simp add: scenario_files_def scenario_built_def File_def
        GetNextLevelIndex_def uint32_sub_def int32_cast_def int_Compare_def)

text \<open>
  C5 (as amended). With 3 levels, level 1 holding [10,20] and [30,40] and level 2 holding
  [5,15], [18,25] and [35,45], after the build: the call for the level-1 file [10,20] with
  the target key 10 (\<open>cmp_smallest = 0\<close>) returns the range (0, 0), that is the lower index
  0 ([5,15]) only; and the call for the level-1 file [30,40] with the target key 40
  (\<open>cmp_largest = 0\<close>) returns the range (2, 2), that is the lower index 2 ([35,45]) only.
\<close>

theorem scenario_resolve:
  "UpdateIndex d (Some scenario_files) (FileIndexer 3 int_Compare) = Inr scenario_built \<and>
   GetNextLevelIndex scenario_built 1 0
     (sgn (int_Compare 10 (smallest (scenario_files ! 1 ! 0))))
     (sgn (int_Compare 10 (largest (scenario_files ! 1 ! 0)))) = Inr (0, 0) \<and>
   GetNextLevelIndex scenario_built 1 1
     (sgn (int_Compare 40 (smallest (scenario_files ! 1 ! 1))))
     (sgn (int_Compare 40 (largest (scenario_files ! 1 ! 1)))) = Inr (2, 2)"
  by (simp add: scenario_build)
     (simp add: scenario_files_def scenario_built_def File_def
        GetNextLevelIndex_def uint32_sub_def int32_cast_def int_Compare_def)



text \<open>
  C7 as stated fails for a rebuild. The structure built from the scenario holds two hint
  records at level 1; rebuilding it with an empty level 1 returns a state that still holds
  these two records at level 1.
\<close>

theorem UpdateIndex_empty_level_counterexample:
  "UpdateIndex unit0 (Some scenario_files) (FileIndexer 3 int_Compare) = Inr scenario_built \<and>
   UpdateIndex unit0 (Some emptied_files) scenario_built =
     Inr (scenario_built\<lparr>level_rb := [- 1, - 1, 0]\<rparr>) \<and>
   emptied_files ! 1 = [] \<and>
   LevelIndexSize (scenario_built\<lparr>level_rb := [- 1, - 1, 0]\<rparr>) 1 = Inr 2"
  by (simp add: scenario_build emptied_build)
     (simp add: emptied_files_def scenario_built_def LevelIndexSize_def)

text \<open>
  C7 (as amended). A build returns normally whether or not some levels are empty. An
  indexed level whose file list is empty keeps the hint records it had before the call
  (none on a freshly constructed or cleared structure); an indexed level whose file list
  is not empty ends up with one hint record per file.
\<close>

theorem UpdateIndex_empty_level:
  assumes "valid_indexer s" and "files_ok s files" and "1 \<le> u" and "u + 1 < num_levels s"
  shows "\<exists>s'. UpdateIndex d (Some files) s = Inr s' \<and>
     (if files ! u = []
      then next_level_index s' ! u = next_level_index s ! u \<and>
           LevelIndexSize s' u = LevelIndexSize s u
      else LevelIndexSize s' u = Inr (length (files ! u)))"
proof -
  have L: "1 \<le> num_levels s" and ul: "u < num_levels s" using assms(4) by simp_all
  from UpdateIndex_built[OF assms(1) L assms(2), of d]
  obtain s' where s': "UpdateIndex d (Some files) s = Inr s'" "valid_indexer s'"
      "num_levels s' = num_levels s"
    and n: "next_level_index s' ! u =
          (if 1 \<le> u \<and> u + 1 < num_levels s \<and> files ! u \<noteq> []
           then UpdateIndex_level d (ucmp s) (files ! u) (files ! (u + 1))
                  (length (files ! u)) (next_level_index s ! u)
           else next_level_index s ! u)"
    using ul by blast
  have lens: "length (next_level_index s') = num_levels s"
    "length (next_level_index s) = num_levels s"
    using s' assms(1) by (simp_all add: valid_indexer_def)
  show ?thesis
  proof (cases "files ! u = []")
    case True
    then have "next_level_index s' ! u = next_level_index s ! u" using n by simp
    with True s'(1) lens ul show ?thesis
      by (intro exI[of _ s']) (simp add: LevelIndexSize_def)
  next
    case False
    then have "length (next_level_index s' ! u) = length (files ! u)"
      using n assms(3,4) by simp
    with False s'(1) lens ul files_ok_small[OF assms(2) ul] show ?thesis
      by (intro exI[of _ s']) (simp add: LevelIndexSize_def)
  qed
qed

theorem UpdateIndex_empty_level_witness:
  "valid_indexer scenario_built \<and> files_ok scenario_built emptied_files \<and>
   (1::nat) \<le> 1 \<and> 1 + 1 < num_levels scenario_built \<and>
   (\<exists>s'. UpdateIndex unit0 (Some emptied_files) scenario_built = Inr s' \<and>
     (if emptied_files ! 1 = []
      then next_level_index s' ! 1 = next_level_index scenario_built ! 1 \<and>
           LevelIndexSize s' 1 = LevelIndexSize scenario_built 1
      else LevelIndexSize s' 1 = Inr (length (emptied_files ! 1))))"
proof -
  have h1: "valid_indexer scenario_built"
    by (simp add: valid_indexer_def scenario_built_def)
  have h2: "files_ok scenario_built emptied_files"
    by (simp add: files_ok_def scenario_built_def emptied_files_def)
  have h3: "(1::nat) \<le> 1" by simp
  have h4: "1 + 1 < num_levels scenario_built" by (simp add: scenario_built_def)
  show ?thesis
    by (intro conjI h1 h2 h3 h4 UpdateIndex_empty_level[OF h1 h2 h3 h4])
qed

text \<open>
  C8. Calling \<open>UpdateIndex\<close> with a null file-list argument returns without failing, and
  the state it returns is the state it was given: every hint vector and every
  bound-cache entry is as before.
\<close>

theorem UpdateIndex_null_noop:
  "UpdateIndex d None s = Inr s"
  by (simp add: UpdateIndex_def)

text \<open>
  C9. \<open>ClearIndex\<close> never fails; it empties the hint vector of every level \<open>1 .. L-1\<close>,
  leaves the hint slot of level 0 as it was, and leaves the bound cache, the level count
  and the comparator unchanged.
\<close>

theorem ClearIndex_frame:
  assumes "valid_indexer s"
  shows "\<exists>s'. ClearIndex s = Inr s' \<and>
     drop 1 (next_level_index s') = replicate (num_levels s - 1) [] \<and>
     take 1 (next_level_index s') = take 1 (next_level_index s) \<and>
     length (next_level_index s') = num_levels s \<and>
     level_rb s' = level_rb s \<and> num_levels s' = num_levels s \<and> ucmp s' = ucmp s"
proof -
  have len: "length (next_level_index s) = num_levels s"
    using assms by (simp add: valid_indexer_def)
  let ?n = "map (\<lambda>l. if 1 \<le> l then [] else next_level_index s ! l) [0..<num_levels s]"
  have "drop 1 ?n = replicate (num_levels s - 1) []"
    by (intro nth_equalityI) auto
  moreover have "take 1 ?n = take 1 (next_level_index s)"
    using len by (intro nth_equalityI) auto
  ultimately show ?thesis
    unfolding ClearIndex_def ClearIndex_loop_spec[OF len] by simp
qed

theorem ClearIndex_frame_witness:
  "valid_indexer scenario_built \<and>
   (\<exists>s'. ClearIndex scenario_built = Inr s' \<and>
     drop 1 (next_level_index s') = replicate (num_levels scenario_built - 1) [] \<and>
     take 1 (next_level_index s') = take 1 (next_level_index scenario_built) \<and>
     length (next_level_index s') = num_levels scenario_built \<and>
     level_rb s' = level_rb scenario_built \<and> num_levels s' = num_levels scenario_built \<and>
     ucmp s' = ucmp scenario_built)"
proof -
  have h1: "valid_indexer scenario_built"
    by (simp add: valid_indexer_def scenario_built_def)
  show ?thesis
    by (intro conjI h1 ClearIndex_frame[OF h1])
qed



end
